theory Spec2Isabelle
  imports Main
begin

section \<open>Data model of the transducer engine\<close>

text \<open>
  The scripts under \<^verbatim>\<open>src/\<close> are call sites of a weighted finite-state transducer engine.
  The engine's data model is the one of section 3 of the specification: states are dense
  non-negative indices, every state holds a list of arcs and an optional final weight, an
  arc carries an input label, an output label, a weight and a destination, and label 0 is
  epsilon.  Weights live in the tropical semiring; the scripts only use integral
  weights, so a finite weight is an \<^typ>\<open>int\<close> and the semiring's zero (plus infinity)
  is \<^term>\<open>None\<close>.
\<close>

record arc =
  ilabel :: nat
  olabel :: nat
  weight :: int
  nextstate :: nat

record state =
  arcs :: "arc list"
  final :: "int option"

record wfst =
  start_state :: "nat option"
  states :: "state list"

datatype error =
    AssertionError
  | UnsupportedForWeighted
  | CyclicAutomaton
  | AmbiguousTie
  | CompositionFailure

datatype project_type = Input | Output

subsection \<open>Tropical semiring\<close>

definition zero_trop :: "int option" where
  "zero_trop = None"

definition one_trop :: "int option" where
  "one_trop = Some 0"

fun plus_trop :: "int option \<Rightarrow> int option \<Rightarrow> int option" where
  "plus_trop None b = b"
| "plus_trop a None = a"
| "plus_trop (Some a) (Some b) = Some (min a b)"

fun times_trop :: "int option \<Rightarrow> int option \<Rightarrow> int option" where
  "times_trop (Some a) (Some b) = Some (a + b)"
| "times_trop _ _ = None"

subsection \<open>Automaton store\<close>

definition NO_STATE_ID :: int where
  "NO_STATE_ID = - 1"


definition num_states :: "wfst \<Rightarrow> nat" where
  "num_states A = length (states A)"

text \<open>The start query: the start state's index, or the sentinel when there is none.\<close>

definition start :: "wfst \<Rightarrow> int" where
  "start A = (case start_state A of None \<Rightarrow> NO_STATE_ID | Some q \<Rightarrow> int q)"

text \<open>
  The arcs of a state.  The store's invariant is that every destination is a state of the
  same automaton; the accessor yields the arcs that satisfy it, so that a malformed arc is
  never followed, and a state index out of range has no arcs and is not final.
\<close>

definition arcs_of :: "wfst \<Rightarrow> nat \<Rightarrow> arc list" where
  "arcs_of A q = (if q < num_states A
     then filter (\<lambda>a. nextstate a < num_states A) (arcs (states A ! q)) else [])"

definition final_of :: "wfst \<Rightarrow> nat \<Rightarrow> int option" where
  "final_of A q = (if q < num_states A then final (states A ! q) else None)"

definition verify :: "wfst \<Rightarrow> bool" where
  "verify A = ((case start_state A of None \<Rightarrow> True | Some s \<Rightarrow> s < num_states A) \<and>
     (\<forall>s \<in> set (states A). \<forall>a \<in> set (arcs s). nextstate a < num_states A))"

text \<open>
  \<^verbatim>\<open>pynini.accep(s, weight=w)\<close>: the acceptor of one string, a chain with one arc per
  character, labelled on both sides with the character's code and of weight one, whose
  last state is final with weight \<open>w\<close>.
\<close>

definition char_arc :: "string \<Rightarrow> nat \<Rightarrow> arc" where
  "char_arc s i = \<lparr>ilabel = of_char (s ! i), olabel = of_char (s ! i), weight = 0,
     nextstate = Suc i\<rparr>"

definition accep :: "string \<Rightarrow> int \<Rightarrow> wfst" where
  "accep s w = \<lparr>start_state = Some 0,
     states = map (\<lambda>i. \<lparr>arcs = [char_arc s i], final = None\<rparr>) [0..<length s]
              @ [\<lparr>arcs = [], final = Some w\<rparr>]\<rparr>"

text \<open>
  \<^verbatim>\<open>pynini.cross(s, t)\<close> on two string literals: the transducer of the single pair
  \<open>(s, t)\<close>, the shorter string padded with epsilons.
\<close>

definition cross :: "string \<Rightarrow> string \<Rightarrow> wfst" where
  "cross s t = \<lparr>start_state = Some 0,
     states = map (\<lambda>i. \<lparr>arcs = [\<lparr>ilabel = (if i < length s then of_char (s ! i) else 0),
                                  olabel = (if i < length t then of_char (t ! i) else 0),
                                  weight = 0, nextstate = Suc i\<rparr>],
                       final = None\<rparr>) [0..<max (length s) (length t)]
              @ [\<lparr>arcs = [], final = Some 0\<rparr>]\<rparr>"

subsection \<open>Paths and the relation an automaton denotes\<close>

text \<open>A path is a sequence of arcs, each leaving the state the previous one entered.\<close>

fun path :: "wfst \<Rightarrow> nat \<Rightarrow> arc list \<Rightarrow> nat \<Rightarrow> bool" where
  "path A p [] r = (p = r)"
| "path A p (a # as) r = (a \<in> set (arcs_of A p) \<and> path A (nextstate a) as r)"

definition lab :: "nat \<Rightarrow> nat list" where
  "lab l = (if l = 0 then [] else [l])"

definition ilabels :: "arc list \<Rightarrow> nat list" where
  "ilabels as = concat (map (\<lambda>a. lab (ilabel a)) as)"

definition olabels :: "arc list \<Rightarrow> nat list" where
  "olabels as = concat (map (\<lambda>a. lab (olabel a)) as)"

definition pweight :: "arc list \<Rightarrow> int" where
  "pweight as = sum_list (map weight as)"

definition accepts :: "wfst \<Rightarrow> nat list \<Rightarrow> nat list \<Rightarrow> int \<Rightarrow> bool" where
  "accepts A x y w = (\<exists>s as r f. start_state A = Some s \<and> s < num_states A \<and>
     path A s as r \<and> final_of A r = Some f \<and>
     ilabels as = x \<and> olabels as = y \<and> pweight as + f = w)"

definition lang :: "wfst \<Rightarrow> (nat list \<times> nat list) set" where
  "lang A = {(x, y). \<exists>w. accepts A x y w}"

definition ostrings :: "wfst \<Rightarrow> nat list set" where
  "ostrings A = snd ` lang A"

definition istrings :: "wfst \<Rightarrow> nat list set" where
  "istrings A = fst ` lang A"

definition is_eps :: "arc \<Rightarrow> bool" where
  "is_eps a = (ilabel a = 0 \<and> olabel a = 0)"

definition epsilon_free :: "wfst \<Rightarrow> bool" where
  "epsilon_free A = (\<forall>q \<in> set [0..<num_states A]. \<forall>a \<in> set (arcs_of A q). \<not> is_eps a)"

subsection \<open>Trimming\<close>

text \<open>
  Modelled from the spec: the engine's trimming of an automaton to the states that lie on
  a path from the start state to a final state, with the dense renumbering of the states
  that remain.  An automaton whose start state lies on no such path loses every state, and
  its start query then returns the sentinel.
\<close>

definition edges :: "wfst \<Rightarrow> (nat \<times> nat) list" where
  "edges A = concat (map (\<lambda>p. map (\<lambda>a. (p, nextstate a)) (arcs_of A p)) [0..<num_states A])"

fun reach_rounds :: "wfst \<Rightarrow> nat \<Rightarrow> nat list \<Rightarrow> nat list" where
  "reach_rounds A 0 S = S"
| "reach_rounds A (Suc k) S =
     reach_rounds A k (remdups (S @ concat (map (\<lambda>q. map nextstate (arcs_of A q)) S)))"

fun coreach_rounds :: "wfst \<Rightarrow> nat \<Rightarrow> nat list \<Rightarrow> nat list" where
  "coreach_rounds A 0 S = S"
| "coreach_rounds A (Suc k) S =
     coreach_rounds A k (remdups (S @ filter
       (\<lambda>q. \<exists>a \<in> set (arcs_of A q). nextstate a \<in> set S) [0..<num_states A]))"

definition accessible_states :: "wfst \<Rightarrow> nat list" where
  "accessible_states A = (case start_state A of None \<Rightarrow> []
     | Some s \<Rightarrow> if s < num_states A then reach_rounds A (length (edges A)) [s] else [])"

definition coaccessible_states :: "wfst \<Rightarrow> nat list" where
  "coaccessible_states A = coreach_rounds A (length (edges A))
     (filter (\<lambda>q. final_of A q \<noteq> None) [0..<num_states A])"

definition accessible :: "wfst \<Rightarrow> nat \<Rightarrow> bool" where
  "accessible A q = (q \<in> set (accessible_states A))"

definition coaccessible :: "wfst \<Rightarrow> nat \<Rightarrow> bool" where
  "coaccessible A q = (q \<in> set (coaccessible_states A))"

definition live :: "wfst \<Rightarrow> nat \<Rightarrow> bool" where
  "live A q = (q < num_states A \<and> accessible A q \<and> coaccessible A q)"

definition kept :: "wfst \<Rightarrow> nat list" where
  "kept A = (let acc = accessible_states A; co = coaccessible_states A in
     filter (\<lambda>q. q \<in> set acc \<and> q \<in> set co) [0..<num_states A])"

fun index_of :: "nat list \<Rightarrow> nat \<Rightarrow> nat" where
  "index_of [] q = 0"
| "index_of (x # xs) q = (if x = q then 0 else Suc (index_of xs q))"

text \<open>The renumbering of an arc's destination that trimming performs.\<close>

definition ren :: "nat list \<Rightarrow> arc \<Rightarrow> arc" where
  "ren ks a = a\<lparr>nextstate := index_of ks (nextstate a)\<rparr>"

definition connect :: "wfst \<Rightarrow> wfst" where
  "connect A = (let ks = kept A in
     \<lparr>start_state = (case start_state A of None \<Rightarrow> None
        | Some s \<Rightarrow> if s \<in> set ks then Some (index_of ks s) else None),
      states = map (\<lambda>q.
        \<lparr>arcs = map (ren ks) (filter (\<lambda>a. nextstate a \<in> set ks) (arcs_of A q)),
         final = final_of A q\<rparr>) ks\<rparr>)"

subsection \<open>Composition\<close>

text \<open>
  Modelled from the spec: composition, the engine's synchronized state-pair traversal.
  The pair \<open>(p, q)\<close> of a state of the left and a state of the right operand is the state
  \<open>p * n + q\<close>, with \<open>n\<close> the right operand's number of states.  An arc of the left
  operand with output label \<open>l \<noteq> 0\<close> is matched with every arc of the right operand with
  input label \<open>l\<close>, the weights combined by the semiring's times; an arc of the left operand
  with output epsilon moves the left component alone, and an arc of the right operand with
  input epsilon moves the right component alone.  The three-state epsilon filter of the
  specification only removes redundant interleavings of such moves, which changes no path
  weight in the (idempotent) tropical semiring; the embedding keeps every interleaving.
  The result is trimmed, as the engine's composition does by default, which is what makes
  the scripts' test \<^verbatim>\<open>lattice.start() != pynini.NO_STATE_ID\<close> a test for a non-empty
  lattice.
\<close>

definition match_arc :: "nat \<Rightarrow> arc \<Rightarrow> arc \<Rightarrow> arc" where
  "match_arc n a b = \<lparr>ilabel = ilabel a, olabel = olabel b, weight = weight a + weight b,
     nextstate = nextstate a * n + nextstate b\<rparr>"

definition left_arc :: "nat \<Rightarrow> nat \<Rightarrow> arc \<Rightarrow> arc" where
  "left_arc n q a = \<lparr>ilabel = ilabel a, olabel = 0, weight = weight a,
     nextstate = nextstate a * n + q\<rparr>"

definition right_arc :: "nat \<Rightarrow> nat \<Rightarrow> arc \<Rightarrow> arc" where
  "right_arc n p b = \<lparr>ilabel = 0, olabel = olabel b, weight = weight b,
     nextstate = p * n + nextstate b\<rparr>"

definition product_state :: "wfst \<Rightarrow> wfst \<Rightarrow> nat \<Rightarrow> state" where
  "product_state A B k = (let n = num_states B; p = k div n; q = k mod n in
     \<lparr>arcs =
        [match_arc n a b.
           a \<leftarrow> arcs_of A p, b \<leftarrow> arcs_of B q, olabel a \<noteq> 0, olabel a = ilabel b]
        @ [left_arc n q a. a \<leftarrow> arcs_of A p, olabel a = 0]
        @ [right_arc n p b. b \<leftarrow> arcs_of B q, ilabel b = 0],
      final = times_trop (final_of A p) (final_of B q)\<rparr>)"

definition product :: "wfst \<Rightarrow> wfst \<Rightarrow> wfst" where
  "product A B =
     \<lparr>start_state = (case start_state A of None \<Rightarrow> None
        | Some s \<Rightarrow> (case start_state B of None \<Rightarrow> None
          | Some t \<Rightarrow> if s < num_states A \<and> t < num_states B
              then Some (s * num_states B + t) else None)),
      states = map (product_state A B) [0..<num_states A * num_states B]\<rparr>"

definition compose :: "wfst \<Rightarrow> wfst \<Rightarrow> wfst" where
  "compose A B = connect (product A B)"

subsection \<open>Projection and epsilon removal\<close>

text \<open>
  Modelled from the spec: projection replaces the input labels by the output labels
  (\<^term>\<open>Output\<close>) or the output labels by the input labels (\<^term>\<open>Input\<close>).
\<close>

definition project_arc :: "project_type \<Rightarrow> arc \<Rightarrow> arc" where
  "project_arc t a = (case t of Input \<Rightarrow> a\<lparr>olabel := ilabel a\<rparr>
     | Output \<Rightarrow> a\<lparr>ilabel := olabel a\<rparr>)"

definition project :: "project_type \<Rightarrow> wfst \<Rightarrow> wfst" where
  "project t A = A\<lparr>states := map (\<lambda>s. s\<lparr>arcs := map (project_arc t) (arcs s)\<rparr>) (states A)\<rparr>"

text \<open>
  Modelled from the spec: epsilon removal.  For every state the epsilon closure is
  computed with its accumulated weight, by as many relaxation rounds as the automaton has
  epsilon arcs; the non-epsilon arcs and the final weights of the states in the closure
  are rewired through it, the epsilon arcs are dropped, and the result is trimmed.
\<close>

definition eps_arcs :: "wfst \<Rightarrow> (nat \<times> int \<times> nat) list" where
  "eps_arcs A = concat (map (\<lambda>p. map (\<lambda>a. (p, weight a, nextstate a))
     (filter is_eps (arcs_of A p))) [0..<num_states A])"

definition eps_rel :: "wfst \<Rightarrow> (nat \<times> nat) set" where
  "eps_rel A = (\<lambda>(r, w, q). (r, q)) ` set (eps_arcs A)"

fun eps_closure :: "wfst \<Rightarrow> nat \<Rightarrow> nat \<Rightarrow> int option list" where
  "eps_closure A 0 p = map (\<lambda>q. if q = p then one_trop else zero_trop) [0..<num_states A]"
| "eps_closure A (Suc k) p = (let d = eps_closure A k p in
     map (\<lambda>q. foldr plus_trop
       [times_trop (d ! r) (Some w). (r, w, q') \<leftarrow> eps_arcs A, q' = q] (d ! q))
       [0..<num_states A])"

definition reweight :: "int \<Rightarrow> arc \<Rightarrow> arc" where
  "reweight dw a = a\<lparr>weight := dw + weight a\<rparr>"

definition rmepsilon_state :: "wfst \<Rightarrow> nat \<Rightarrow> state" where
  "rmepsilon_state A p = (let d = eps_closure A (length (eps_arcs A)) p in
     \<lparr>arcs = concat (map (\<lambda>q. case d ! q of None \<Rightarrow> []
          | Some dw \<Rightarrow> map (reweight dw)
              (filter (\<lambda>a. \<not> is_eps a) (arcs_of A q))) [0..<num_states A]),
      final = foldr plus_trop
        (map (\<lambda>q. times_trop (d ! q) (final_of A q)) [0..<num_states A]) zero_trop\<rparr>)"

definition rmepsilon_states :: "wfst \<Rightarrow> wfst" where
  "rmepsilon_states A = A\<lparr>states := map (rmepsilon_state A) [0..<num_states A]\<rparr>"

definition rmepsilon :: "wfst \<Rightarrow> wfst" where
  "rmepsilon A = connect (rmepsilon_states A)"

subsection \<open>Union\<close>

text \<open>
  Modelled from the spec: union adds a new start state, state 0, with an epsilon arc of
  weight one to the start state of each operand; the states of the left operand follow,
  shifted by one, then those of the right operand.
\<close>

definition shift_arc :: "nat \<Rightarrow> arc \<Rightarrow> arc" where
  "shift_arc k a = a\<lparr>nextstate := nextstate a + k\<rparr>"

definition eps_arc :: "nat \<Rightarrow> arc" where
  "eps_arc q = \<lparr>ilabel = 0, olabel = 0, weight = 0, nextstate = q\<rparr>"

definition shifted_states :: "nat \<Rightarrow> wfst \<Rightarrow> state list" where
  "shifted_states k A = map (\<lambda>q. \<lparr>arcs = map (shift_arc k) (arcs_of A q),
     final = final_of A q\<rparr>) [0..<num_states A]"

definition start_arcs :: "nat \<Rightarrow> wfst \<Rightarrow> arc list" where
  "start_arcs k A = (case start_state A of None \<Rightarrow> []
     | Some s \<Rightarrow> if s < num_states A then [eps_arc (s + k)] else [])"

definition union_fst :: "wfst \<Rightarrow> wfst \<Rightarrow> wfst" where
  "union_fst A B = \<lparr>start_state = Some 0,
     states = \<lparr>arcs = start_arcs 1 A @ start_arcs (1 + num_states A) B, final = None\<rparr>
       # shifted_states 1 A @ shifted_states (1 + num_states A) B\<rparr>"

subsection \<open>Difference\<close>

text \<open>
  Modelled from the spec: difference is defined over unweighted acceptors only, as the
  intersection of the left operand with the complement of the right one, and fails with
  \<open>UnsupportedForWeighted\<close> when an operand carries a weight other than one.  The
  complement is taken by the subset construction over the labels of the left operand: a
  state of the complement is a set of states of the right operand, stored as the number
  whose bit \<open>q\<close> says whether state \<open>q\<close> belongs to it; the empty set is the sink that
  completes the automaton, and a set is final when none of its members is.
\<close>

definition unweighted :: "wfst \<Rightarrow> bool" where
  "unweighted A = (\<forall>s \<in> set (states A).
     (\<forall>a \<in> set (arcs s). weight a = 0) \<and> (final s = None \<or> final s = Some 0))"

definition acceptor :: "wfst \<Rightarrow> bool" where
  "acceptor A = (\<forall>s \<in> set (states A). \<forall>a \<in> set (arcs s). ilabel a = olabel a)"

definition alphabet :: "wfst \<Rightarrow> nat list" where
  "alphabet A = remdups (filter (\<lambda>l. l \<noteq> 0)
     (concat (map (\<lambda>q. map olabel (arcs_of A q)) [0..<num_states A])))"

text \<open>The states that a path from the start state reaches on the input string \<open>x\<close>.\<close>

definition reach :: "wfst \<Rightarrow> nat list \<Rightarrow> nat \<Rightarrow> bool" where
  "reach A x q = (\<exists>s as. start_state A = Some s \<and> s < num_states A \<and>
     path A s as q \<and> ilabels as = x)"

definition mask :: "nat \<Rightarrow> (nat \<Rightarrow> bool) \<Rightarrow> nat" where
  "mask n P = horner_sum of_bool 2 (map P [0..<n])"

definition closure_member :: "wfst \<Rightarrow> nat \<Rightarrow> nat \<Rightarrow> bool" where
  "closure_member A p q = (eps_closure A (length (eps_arcs A)) p ! q \<noteq> None)"

definition start_mask :: "wfst \<Rightarrow> nat" where
  "start_mask A = (case start_state A of None \<Rightarrow> 0
     | Some s \<Rightarrow> if s < num_states A then mask (num_states A) (closure_member A s) else 0)"

definition next_member :: "wfst \<Rightarrow> nat \<Rightarrow> nat \<Rightarrow> nat \<Rightarrow> bool" where
  "next_member A l k q' = (\<exists>q \<in> set [0..<num_states A]. bit k q \<and>
     (\<exists>a \<in> set (arcs_of A q). ilabel a = l \<and> closure_member A (nextstate a) q'))"

definition next_mask :: "wfst \<Rightarrow> nat \<Rightarrow> nat \<Rightarrow> nat" where
  "next_mask A l k = mask (num_states A) (next_member A l k)"

definition label_arc :: "nat \<Rightarrow> nat \<Rightarrow> arc" where
  "label_arc l q = \<lparr>ilabel = l, olabel = l, weight = 0, nextstate = q\<rparr>"

definition complement_state :: "wfst \<Rightarrow> nat list \<Rightarrow> nat \<Rightarrow> state" where
  "complement_state A ls k =
     \<lparr>arcs = [label_arc l (next_mask A l k). l \<leftarrow> ls, l \<noteq> 0],
      final = (if \<exists>q \<in> set [0..<num_states A]. bit k q \<and> final_of A q \<noteq> None
               then None else Some 0)\<rparr>"

definition complement :: "wfst \<Rightarrow> nat list \<Rightarrow> wfst" where
  "complement B ls = (let A = project Input B in
     \<lparr>start_state = Some (start_mask A),
      states = map (complement_state A ls) [0..<2 ^ num_states A]\<rparr>)"

definition difference :: "wfst \<Rightarrow> wfst \<Rightarrow> error + wfst" where
  "difference A B = (if unweighted A \<and> unweighted B
     then Inr (compose A (complement B (alphabet A)))
     else Inl UnsupportedForWeighted)"

text \<open>The label sequence of a string: one label per character, its code.\<close>

definition string_labels :: "string \<Rightarrow> nat list" where
  "string_labels s = concat (map (\<lambda>c. lab (of_char c)) s)"

subsection \<open>Topological order, path enumeration and shortest distance\<close>

text \<open>
  Modelled from the spec: the reverse topological order of the states that lie on a path
  from the start state to a final state.  In every round the states all of whose
  successors are already ordered are appended; states on a cycle never become ready, and
  an automaton that keeps unordered states after as many rounds as it has such states is
  cyclic.
\<close>

definition ready :: "wfst \<Rightarrow> nat list \<Rightarrow> nat list \<Rightarrow> nat \<Rightarrow> bool" where
  "ready A ks acc q =
     (\<forall>a \<in> set (arcs_of A q). nextstate a \<in> set ks \<longrightarrow> nextstate a \<in> set acc)"

fun topsort_rounds ::
  "wfst \<Rightarrow> nat list \<Rightarrow> nat \<Rightarrow> nat list \<Rightarrow> nat list \<Rightarrow> nat list \<times> nat list" where
  "topsort_rounds A ks 0 rem acc = (rem, acc)"
| "topsort_rounds A ks (Suc k) rem acc =
     topsort_rounds A ks k (filter (\<lambda>q. \<not> ready A ks acc q) rem)
       (acc @ filter (ready A ks acc) rem)"

definition topsort :: "wfst \<Rightarrow> nat list option" where
  "topsort A = (let ks = kept A in
     case topsort_rounds A ks (length ks) ks [] of
       ([], acc) \<Rightarrow> Some acc | _ \<Rightarrow> None)"

text \<open>
  A value per state, computed state by state along an order: the value of a state is
  computed from the values of the states before it.
\<close>

definition dp :: "((nat \<Rightarrow> 'a) \<Rightarrow> nat \<Rightarrow> 'a) \<Rightarrow> nat list \<Rightarrow> (nat \<Rightarrow> 'a) \<Rightarrow> nat \<Rightarrow> 'a" where
  "dp F order init = foldl (\<lambda>d q. d(q := F d q)) init order"

text \<open>
  Modelled from the spec: single-source shortest distance.  It requires an acyclic
  automaton and fails with \<open>CyclicAutomaton\<close> otherwise; in reverse topological order
  the weight-to-final of a state is the plus of its final weight and, for each of its
  arcs, the times of the arc's weight and the weight-to-final of the arc's destination.
\<close>

definition relax :: "wfst \<Rightarrow> (nat \<Rightarrow> int option) \<Rightarrow> nat \<Rightarrow> int option" where
  "relax A d q = foldr plus_trop
     (map (\<lambda>a. times_trop (Some (weight a)) (d (nextstate a))) (arcs_of A q)) (final_of A q)"

definition shortestdistance :: "wfst \<Rightarrow> error + int option list" where
  "shortestdistance A = (case topsort A of
       None \<Rightarrow> Inl CyclicAutomaton
     | Some order \<Rightarrow> Inr (map (dp (relax A) order (\<lambda>q. zero_trop)) [0..<num_states A]))"

text \<open>
  Modelled from the spec: the path view of an acyclic automaton, the list of its accepting
  paths as (input labels, output labels, weight); it fails with \<open>CyclicAutomaton\<close> on an
  automaton with a cycle between the start state and a final state.
\<close>

definition paths_step :: "wfst \<Rightarrow> (nat \<Rightarrow> (arc list \<times> int) list) \<Rightarrow> nat \<Rightarrow> (arc list \<times> int) list" where
  "paths_step A d q = (case final_of A q of None \<Rightarrow> [] | Some f \<Rightarrow> [([], f)])
     @ concat (map (\<lambda>a. map (\<lambda>(as, f). (a # as, f)) (d (nextstate a))) (arcs_of A q))"

definition paths :: "wfst \<Rightarrow> error + (nat list \<times> nat list \<times> int) list" where
  "paths A = (case topsort A of
       None \<Rightarrow> Inl CyclicAutomaton
     | Some order \<Rightarrow> Inr (case start_state A of None \<Rightarrow> []
         | Some s \<Rightarrow> map (\<lambda>(as, f). (ilabels as, olabels as, pweight as + f))
             (dp (paths_step A) order (\<lambda>q. []) s)))"

subsection \<open>Context-dependent rewrite rules\<close>

text \<open>
  Modelled from the spec: \<open>cdrewrite\<close>, for the rules of \<^verbatim>\<open>run_basics\<close>, whose
  replacement is the cross product of two symbols and whose contexts are strings, the
  left one possibly anchored at the beginning and the right one at the end of the string.
  The compiled rule is kept as its parameters, and its composition with an input string
  is the rewriting that the specification describes: the simultaneous mode rewrites
  every site whose contexts match in the input; the left-to-right mode goes through the
  sites from the left and matches the left context against what it has written, so that
  a context created by an earlier rewriting counts; the right-to-left mode is its mirror
  image; and an optional rule also leaves each matching site unrewritten.  A string with
  a symbol outside the rule's alphabet has no rewriting.
\<close>

datatype direction = LTR | RTL | SIM

record rule =
  tau_in :: nat
  tau_out :: nat
  lambda_bos :: bool
  lambda :: "nat list"
  rho :: "nat list"
  rho_eos :: bool
  sigma :: "nat list"
  direction :: direction
  optional :: bool

definition left_ok :: "rule \<Rightarrow> nat list \<Rightarrow> bool" where
  "left_ok r pre = (if lambda_bos r then pre = lambda r
     else length (lambda r) \<le> length pre \<and>
          drop (length pre - length (lambda r)) pre = lambda r)"

definition right_ok :: "rule \<Rightarrow> nat list \<Rightarrow> bool" where
  "right_ok r post = (if rho_eos r then post = rho r
     else take (length (rho r)) post = rho r)"

fun rewrite_sim :: "rule \<Rightarrow> nat list \<Rightarrow> nat list \<Rightarrow> nat list list" where
  "rewrite_sim r pre [] = [[]]"
| "rewrite_sim r pre (c # rest) = (let tails = rewrite_sim r (pre @ [c]) rest in
     if c = tau_in r \<and> left_ok r pre \<and> right_ok r rest
     then map ((#) (tau_out r)) tails @ (if optional r then map ((#) c) tails else [])
     else map ((#) c) tails)"

fun rewrite_ltr :: "rule \<Rightarrow> nat list \<Rightarrow> nat list \<Rightarrow> nat list list" where
  "rewrite_ltr r out [] = [out]"
| "rewrite_ltr r out (c # rest) =
     (if c = tau_in r \<and> left_ok r out \<and> right_ok r rest
      then rewrite_ltr r (out @ [tau_out r]) rest
           @ (if optional r then rewrite_ltr r (out @ [c]) rest else [])
      else rewrite_ltr r (out @ [c]) rest)"

definition mirror :: "rule \<Rightarrow> rule" where
  "mirror r = r\<lparr>lambda_bos := rho_eos r, lambda := rev (rho r),
                 rho := rev (lambda r), rho_eos := lambda_bos r\<rparr>"

definition rewrites_string :: "rule \<Rightarrow> nat list \<Rightarrow> nat list list" where
  "rewrites_string r x = (if set x \<subseteq> set (sigma r)
     then (case direction r of
         SIM \<Rightarrow> rewrite_sim r [] x
       | LTR \<Rightarrow> rewrite_ltr r [] x
       | RTL \<Rightarrow> map rev (rewrite_ltr (mirror r) [] (rev x)))
     else [])"

text \<open>The three rules of \<^verbatim>\<open>run_basics\<close> (chapter_5.py, lines 30 to 46 and 101 to 106).\<close>

definition rule3 :: rule where
  "rule3 = \<lparr>tau_in = 98, tau_out = 97, lambda_bos = False, lambda = [98], rho = [98],
     rho_eos = False, sigma = [97, 98, 99], direction = SIM, optional = False\<rparr>"

definition rule8 :: rule where
  "rule8 = \<lparr>tau_in = 98, tau_out = 97, lambda_bos = True, lambda = [98], rho = [98],
     rho_eos = False, sigma = [97, 98, 99], direction = LTR, optional = False\<rparr>"


text \<open>
  Modelled from the spec: the rewrite convenience functions.  The lattice of an input
  and a rule holds, for every path of the input, each rewriting of its string with the
  path's weight.  \<open>optimal_rewrites\<close> are the output strings of minimal weight;
  \<open>one_top_rewrite\<close> returns the only one and fails with \<open>AmbiguousTie\<close> when there are
  several.  The specification is silent on an input without rewriting; the engine fails
  there with a composition failure.
\<close>

definition rewrite_lattice :: "wfst \<Rightarrow> rule \<Rightarrow> error + (nat list \<times> int) list" where
  "rewrite_lattice input r = (case paths input of
       Inl e \<Rightarrow> Inl e
     | Inr ps \<Rightarrow>
         (case concat (map (\<lambda>(x, y, w). map (\<lambda>z. (z, w)) (rewrites_string r y)) ps) of
            [] \<Rightarrow> Inl CompositionFailure
          | l \<Rightarrow> Inr l))"

definition min_weight :: "('a \<times> int) list \<Rightarrow> int option" where
  "min_weight l = foldr (\<lambda>(z, w) m. plus_trop (Some w) m) l zero_trop"

definition optimal_of :: "(nat list \<times> int) list \<Rightarrow> nat list list" where
  "optimal_of l = (case min_weight l of None \<Rightarrow> []
     | Some m \<Rightarrow> remdups (map fst (filter (\<lambda>(z, w). w = m) l)))"

definition all_rewrites :: "wfst \<Rightarrow> rule \<Rightarrow> error + nat list list" where
  "all_rewrites input r = (case rewrite_lattice input r of
       Inl e \<Rightarrow> Inl e | Inr l \<Rightarrow> Inr (remdups (map fst l)))"

definition optimal_rewrites :: "wfst \<Rightarrow> rule \<Rightarrow> error + nat list list" where
  "optimal_rewrites input r = (case rewrite_lattice input r of
       Inl e \<Rightarrow> Inl e | Inr l \<Rightarrow> Inr (optimal_of l))"


section \<open>The functions of chapter 5\<close>

text \<open>
  \<^verbatim>\<open>exclude\<close> (chapter_5.py, lines 189 to 196): the rules are tried in list order; a rule
  whose lattice has no start state is skipped, the first other one gives the result, and
  falling off the loop returns \<^verbatim>\<open>None\<close>.
\<close>

fun exclude :: "wfst \<Rightarrow> wfst list \<Rightarrow> wfst option" where
  "exclude istring [] = None"
| "exclude istring (rule # rules) = (let lattice = compose istring rule in
     if start lattice = NO_STATE_ID then exclude istring rules
     else Some (rmepsilon (project Output lattice)))"

text \<open>
  \<^verbatim>\<open>cascade\<close> (chapter_5.py, lines 145 to 152): the lattice is composed with each rule
  in turn, the assertion fails on an empty lattice, and the lattice is projected to its
  output side and freed of epsilons before the next rule.
\<close>

fun cascade :: "wfst \<Rightarrow> wfst list \<Rightarrow> error + wfst" where
  "cascade lattice [] = Inr lattice"
| "cascade lattice (rule # rules) = (let lattice' = compose lattice rule in
     if start lattice' \<noteq> NO_STATE_ID
     then cascade (rmepsilon (project Output lattice')) rules
     else Inl AssertionError)"

text \<open>
  The closure over the alphabet \<open>{a, b}\<close>, \<^verbatim>\<open>pynini.union('a', 'b').closure()\<close> once
  optimized: a single state, start and final, with one loop per symbol.
\<close>

definition sigma_star_ab :: wfst where
  "sigma_star_ab = \<lparr>start_state = Some 0,
     states = [\<lparr>arcs = [label_arc 97 0, label_arc 98 0], final = Some 0\<rparr>]\<rparr>"

text \<open>
  \<^verbatim>\<open>priority_union\<close> (chapter_5.py, lines 199 to 206): the union of \<open>mu\<close> with \<open>nu\<close>
  restricted to the strings of \<open>sigma_star\<close> outside the domain of \<open>mu\<close>.  A failure of the
  difference is an exception that the function lets through.
\<close>

definition priority_union :: "wfst \<Rightarrow> wfst \<Rightarrow> wfst \<Rightarrow> error + wfst" where
  "priority_union mu nu sigma_star =
     (case difference sigma_star (project Input mu) of
        Inl e \<Rightarrow> Inl e
      | Inr d \<Rightarrow> (let nu_not_mu = compose d nu in Inr (union_fst mu nu_not_mu)))"

section \<open>Basic facts\<close>

lemma start_no_state_iff: "start A = NO_STATE_ID \<longleftrightarrow> start_state A = None"
  by (simp add: start_def NO_STATE_ID_def split: option.splits)

lemma exclude_find:
  "exclude i rs = (case find (\<lambda>r. start (compose i r) \<noteq> NO_STATE_ID) rs of
      None \<Rightarrow> None
    | Some r \<Rightarrow> Some (rmepsilon (project Output (compose i r))))"
  by (induction rs) (simp_all add: Let_def)

lemma exclude_None_iff:
  "exclude i rs = None \<longleftrightarrow> (\<forall>r \<in> set rs. start (compose i r) = NO_STATE_ID)"
  by (induction rs) (simp_all add: Let_def)

subsection \<open>Paths\<close>


lemma path_append: "path A p (as @ bs) r \<longleftrightarrow> (\<exists>q. path A p as q \<and> path A q bs r)"
  by (induction as arbitrary: p) auto

lemma arcs_of_valid:
  "a \<in> set (arcs_of A p) \<Longrightarrow> p < num_states A \<and> nextstate a < num_states A"
  by (auto simp: arcs_of_def split: if_splits)

lemma path_valid: "path A p as r \<Longrightarrow> p < num_states A \<Longrightarrow> r < num_states A"
  by (induction as arbitrary: p) (auto dest: arcs_of_valid)

lemma ilabels_simps [simp]:
  "ilabels [] = []" "ilabels (a # as) = lab (ilabel a) @ ilabels as"
  "ilabels (as @ bs) = ilabels as @ ilabels bs"
  by (simp_all add: ilabels_def)

lemma olabels_simps [simp]:
  "olabels [] = []" "olabels (a # as) = lab (olabel a) @ olabels as"
  "olabels (as @ bs) = olabels as @ olabels bs"
  by (simp_all add: olabels_def)

lemma pweight_simps [simp]:
  "pweight [] = 0" "pweight (a # as) = weight a + pweight as"
  "pweight (as @ bs) = pweight as + pweight bs"
  by (simp_all add: pweight_def)

lemma acceptsI:
  "start_state A = Some s \<Longrightarrow> s < num_states A \<Longrightarrow> path A s as r \<Longrightarrow>
   final_of A r = Some f \<Longrightarrow> accepts A (ilabels as) (olabels as) (pweight as + f)"
  unfolding accepts_def by blast

lemma acceptsE:
  assumes "accepts A x y w"
  obtains s as r f where "start_state A = Some s" "s < num_states A" "path A s as r"
    "final_of A r = Some f" "x = ilabels as" "y = olabels as" "w = pweight as + f"
  using assms unfolding accepts_def by blast

lemma edges_iff: "(p, q) \<in> set (edges A) \<longleftrightarrow> (\<exists>a \<in> set (arcs_of A p). nextstate a = q)"
proof
  assume "(p, q) \<in> set (edges A)"
  then show "\<exists>a \<in> set (arcs_of A p). nextstate a = q"
    by (auto simp: edges_def)
next
  assume "\<exists>a \<in> set (arcs_of A p). nextstate a = q"
  then obtain a where a: "a \<in> set (arcs_of A p)" "nextstate a = q" by blast
  then have "p < num_states A" by (auto dest: arcs_of_valid)
  with a show "(p, q) \<in> set (edges A)"
    by (force simp: edges_def)
qed

lemma rtrancl_edges_path: "(p, q) \<in> (set (edges A))\<^sup>* \<longleftrightarrow> (\<exists>as. path A p as q)"
proof
  assume "(p, q) \<in> (set (edges A))\<^sup>*"
  then show "\<exists>as. path A p as q"
  proof (induction rule: converse_rtrancl_induct)
    case base
    have "path A q [] q" by simp
    then show ?case by (rule exI)
  next
    case (step p r)
    then obtain a where a: "a \<in> set (arcs_of A p)" "nextstate a = r"
      by (auto simp: edges_iff)
    from step.IH obtain as where "path A r as q" by blast
    with a have "path A p (a # as) q" by simp
    then show ?case by (rule exI)
  qed
next
  assume "\<exists>as. path A p as q"
  then obtain as where "path A p as q" by blast
  then show "(p, q) \<in> (set (edges A))\<^sup>*"
  proof (induction as arbitrary: p)
    case Nil
    then show ?case by simp
  next
    case (Cons a as)
    then have "(p, nextstate a) \<in> set (edges A)" by (auto simp: edges_iff)
    moreover from Cons have "(nextstate a, q) \<in> (set (edges A))\<^sup>*" by simp
    ultimately show ?case by (rule converse_rtrancl_into_rtrancl)
  qed
qed

lemma relpow_bounded_edges:
  "(\<exists>i \<le> length (edges A). (p, q) \<in> set (edges A) ^^ i) \<longleftrightarrow> (p, q) \<in> (set (edges A))\<^sup>*"
proof
  assume "\<exists>i \<le> length (edges A). (p, q) \<in> set (edges A) ^^ i"
  then show "(p, q) \<in> (set (edges A))\<^sup>*" by (auto intro: relpow_imp_rtrancl)
next
  assume "(p, q) \<in> (set (edges A))\<^sup>*"
  then obtain i where "i \<le> card (set (edges A))" "(p, q) \<in> set (edges A) ^^ i"
    unfolding rtrancl_finite_eq_relpow [OF finite_set] by auto
  moreover have "card (set (edges A)) \<le> length (edges A)" by (rule card_length)
  ultimately show "\<exists>i \<le> length (edges A). (p, q) \<in> set (edges A) ^^ i"
    by (meson order_trans)
qed

lemma reach_rounds_iff:
  "q \<in> set (reach_rounds A k S) \<longleftrightarrow> (\<exists>p \<in> set S. \<exists>i \<le> k. (p, q) \<in> set (edges A) ^^ i)"
proof (induction k arbitrary: S)
  case 0
  then show ?case by auto
next
  case (Suc k)
  let ?E = "set (edges A)"
  let ?S' = "remdups (S @ concat (map (\<lambda>q. map nextstate (arcs_of A q)) S))"
  have "?E `` set S = (\<Union>p \<in> set S. nextstate ` set (arcs_of A p))"
    by (force simp: edges_iff Image_iff)
  then have S': "set ?S' = set S \<union> ?E `` set S"
    by auto
  have "q \<in> set (reach_rounds A (Suc k) S) \<longleftrightarrow> (\<exists>p \<in> set ?S'. \<exists>i \<le> k. (p, q) \<in> ?E ^^ i)"
    using Suc.IH [of ?S'] by simp
  also have "\<dots> \<longleftrightarrow> (\<exists>p \<in> set S. \<exists>i \<le> Suc k. (p, q) \<in> ?E ^^ i)"
  proof
    assume "\<exists>p \<in> set ?S'. \<exists>i \<le> k. (p, q) \<in> ?E ^^ i"
    then obtain p' i where h: "p' \<in> set S \<union> ?E `` set S" "i \<le> k" "(p', q) \<in> ?E ^^ i"
      unfolding S' by blast
    show "\<exists>p \<in> set S. \<exists>i \<le> Suc k. (p, q) \<in> ?E ^^ i"
    proof (cases "p' \<in> set S")
      case True
      with h show ?thesis using le_SucI by blast
    next
      case False
      with h(1) obtain p where p: "p \<in> set S" "(p, p') \<in> ?E" by blast
      with h(3) have "(p, q) \<in> ?E ^^ Suc i" by (meson relpow_Suc_I2)
      with p(1) h(2) show ?thesis using Suc_le_mono by blast
    qed
  next
    assume "\<exists>p \<in> set S. \<exists>i \<le> Suc k. (p, q) \<in> ?E ^^ i"
    then obtain p i where h: "p \<in> set S" "i \<le> Suc k" "(p, q) \<in> ?E ^^ i" by blast
    show "\<exists>p \<in> set ?S'. \<exists>i \<le> k. (p, q) \<in> ?E ^^ i"
    proof (cases i)
      case 0
      with h have "p \<in> set ?S'" "(p, q) \<in> ?E ^^ 0" unfolding S' by simp_all
      then show ?thesis by blast
    next
      case (Suc j)
      with h(3) obtain p' where p': "(p, p') \<in> ?E" "(p', q) \<in> ?E ^^ j"
        by (meson relpow_Suc_E2)
      with h(1) have "p' \<in> set ?S'" unfolding S' by blast
      moreover have "j \<le> k" using h(2) Suc by simp
      ultimately show ?thesis using p'(2) by blast
    qed
  qed
  finally show ?case .
qed

lemma coreach_rounds_iff:
  "q \<in> set (coreach_rounds A k S) \<longleftrightarrow> (\<exists>r \<in> set S. \<exists>i \<le> k. (q, r) \<in> set (edges A) ^^ i)"
proof (induction k arbitrary: S)
  case 0
  then show ?case by auto
next
  case (Suc k)
  let ?E = "set (edges A)"
  let ?S' = "remdups (S @ filter (\<lambda>q. \<exists>a \<in> set (arcs_of A q). nextstate a \<in> set S)
     [0..<num_states A])"
  have S': "set ?S' = set S \<union> {q. \<exists>r \<in> set S. (q, r) \<in> ?E}"
  proof -
    have "(\<exists>a \<in> set (arcs_of A q). nextstate a \<in> set S) \<longleftrightarrow> (\<exists>r \<in> set S. (q, r) \<in> ?E)" for q
      by (auto simp: edges_iff)
    moreover have "(\<exists>r \<in> set S. (q, r) \<in> ?E) \<Longrightarrow> q < num_states A" for q
      by (auto simp: edges_iff dest: arcs_of_valid)
    ultimately show ?thesis by auto
  qed
  have "q \<in> set (coreach_rounds A (Suc k) S) \<longleftrightarrow> (\<exists>r \<in> set ?S'. \<exists>i \<le> k. (q, r) \<in> ?E ^^ i)"
    using Suc.IH [of ?S'] by simp
  also have "\<dots> \<longleftrightarrow> (\<exists>r \<in> set S. \<exists>i \<le> Suc k. (q, r) \<in> ?E ^^ i)"
  proof
    assume "\<exists>r \<in> set ?S'. \<exists>i \<le> k. (q, r) \<in> ?E ^^ i"
    then obtain r' i where h: "r' \<in> set S \<union> {q. \<exists>r \<in> set S. (q, r) \<in> ?E}" "i \<le> k"
      "(q, r') \<in> ?E ^^ i"
      unfolding S' by blast
    show "\<exists>r \<in> set S. \<exists>i \<le> Suc k. (q, r) \<in> ?E ^^ i"
    proof (cases "r' \<in> set S")
      case True
      with h show ?thesis using le_SucI by blast
    next
      case False
      with h(1) obtain r where r: "r \<in> set S" "(r', r) \<in> ?E" by blast
      with h(3) have "(q, r) \<in> ?E ^^ Suc i" by auto
      with r(1) h(2) show ?thesis using Suc_le_mono by blast
    qed
  next
    assume "\<exists>r \<in> set S. \<exists>i \<le> Suc k. (q, r) \<in> ?E ^^ i"
    then obtain r i where h: "r \<in> set S" "i \<le> Suc k" "(q, r) \<in> ?E ^^ i" by blast
    show "\<exists>r \<in> set ?S'. \<exists>i \<le> k. (q, r) \<in> ?E ^^ i"
    proof (cases i)
      case 0
      with h have "r \<in> set ?S'" "(q, r) \<in> ?E ^^ 0" unfolding S' by simp_all
      then show ?thesis by blast
    next
      case (Suc j)
      with h(3) obtain r' where r': "(q, r') \<in> ?E ^^ j" "(r', r) \<in> ?E" by auto
      with h(1) have "r' \<in> set ?S'" unfolding S' by blast
      moreover have "j \<le> k" using h(2) Suc by simp
      ultimately show ?thesis using r'(1) by blast
    qed
  qed
  finally show ?case .
qed

lemma index_of_nth: "q \<in> set ks \<Longrightarrow> ks ! index_of ks q = q"
  by (induction ks) auto

lemma index_of_less: "q \<in> set ks \<Longrightarrow> index_of ks q < length ks"
  by (induction ks) auto

lemma index_of_nth_distinct: "distinct ks \<Longrightarrow> i < length ks \<Longrightarrow> index_of ks (ks ! i) = i"
proof (induction ks arbitrary: i)
  case Nil
  then show ?case by simp
next
  case (Cons k ks)
  then show ?case by (cases i) auto
qed

lemma kept_set [simp]: "q \<in> set (kept A) \<longleftrightarrow> live A q"
  by (auto simp: kept_def live_def accessible_def coaccessible_def Let_def)

lemma distinct_kept [simp]: "distinct (kept A)"
  by (simp add: kept_def Let_def)

lemma num_states_connect [simp]: "num_states (connect A) = length (kept A)"
  by (simp add: connect_def num_states_def Let_def)

lemma live_nth_kept: "i < length (kept A) \<Longrightarrow> live A (kept A ! i)"
  using kept_set nth_mem by blast

lemma ren_fields [simp]:
  "ilabel (ren (kept A) a) = ilabel a" "olabel (ren (kept A) a) = olabel a" "weight (ren (kept A) a) = weight a"
  "nextstate (ren (kept A) a) = index_of (kept A) (nextstate a)"
  by (simp_all add: ren_def)

lemma arcs_of_connect:
  assumes "i < length (kept A)"
  shows "arcs_of (connect A) i =
    map (ren (kept A)) (filter (\<lambda>a. live A (nextstate a)) (arcs_of A (kept A ! i)))"
proof -
  have "\<And>a. live A (nextstate a) \<Longrightarrow> index_of (kept A) (nextstate a) < length (kept A)"
    by (simp add: index_of_less)
  then have "filter (\<lambda>a. nextstate a < length (kept A))
      (map (ren (kept A)) (filter (\<lambda>a. live A (nextstate a)) (arcs_of A (kept A ! i))))
    = map (ren (kept A)) (filter (\<lambda>a. live A (nextstate a)) (arcs_of A (kept A ! i)))"
    by (auto simp: filter_id_conv)
  with assms show ?thesis
    unfolding arcs_of_def [of "connect A"] num_states_connect
    by (simp add: connect_def Let_def)
qed

lemma final_of_connect:
  "i < length (kept A) \<Longrightarrow> final_of (connect A) i = final_of A (kept A ! i)"
  unfolding final_of_def [of "connect A"] num_states_connect
  by (simp add: connect_def Let_def)

lemma ilabels_ren [simp]: "ilabels (map (ren (kept A)) as) = ilabels as"
  by (induction as) simp_all

lemma olabels_ren [simp]: "olabels (map (ren (kept A)) as) = olabels as"
  by (induction as) simp_all

lemma pweight_ren [simp]: "pweight (map (ren (kept A)) as) = pweight as"
  by (induction as) simp_all

lemma accessible_iff:
  "accessible A q \<longleftrightarrow> (\<exists>s as. start_state A = Some s \<and> s < num_states A \<and> path A s as q)"
proof (cases "start_state A")
  case None
  then show ?thesis by (simp add: accessible_def accessible_states_def)
next
  case (Some s)
  show ?thesis
  proof (cases "s < num_states A")
    case True
    have "accessible A q \<longleftrightarrow> (\<exists>i \<le> length (edges A). (s, q) \<in> set (edges A) ^^ i)"
      using Some True by (simp add: accessible_def accessible_states_def reach_rounds_iff)
    also have "\<dots> \<longleftrightarrow> (\<exists>as. path A s as q)"
      unfolding relpow_bounded_edges rtrancl_edges_path ..
    finally show ?thesis using Some True by simp
  next
    case False
    with Some show ?thesis by (simp add: accessible_def accessible_states_def)
  qed
qed

lemma coaccessible_iff:
  "coaccessible A q \<longleftrightarrow> (\<exists>as r f. path A q as r \<and> final_of A r = Some f)"
proof -
  have v: "final_of A r = Some f \<Longrightarrow> r < num_states A" for r f
    by (auto simp: final_of_def split: if_splits)
  have "coaccessible A q \<longleftrightarrow>
      (\<exists>r. r < num_states A \<and> final_of A r \<noteq> None \<and>
         (\<exists>i \<le> length (edges A). (q, r) \<in> set (edges A) ^^ i))"
    by (auto simp: coaccessible_def coaccessible_states_def coreach_rounds_iff)
  also have "\<dots> \<longleftrightarrow> (\<exists>r. r < num_states A \<and> final_of A r \<noteq> None \<and> (\<exists>as. path A q as r))"
    unfolding relpow_bounded_edges rtrancl_edges_path ..
  also have "\<dots> \<longleftrightarrow> (\<exists>as r f. path A q as r \<and> final_of A r = Some f)"
    using v by auto
  finally show ?thesis .
qed

lemma live_step:
  assumes "live A p" "a \<in> set (arcs_of A p)" "path A (nextstate a) as r" "live A r"
  shows "live A (nextstate a)"
proof -
  from assms(1) obtain s bs where s: "start_state A = Some s" "s < num_states A" "path A s bs p"
    by (auto simp: live_def accessible_iff)
  with assms(2) have "path A s (bs @ [a]) (nextstate a)"
    unfolding path_append by (intro exI [of _ p]) simp
  with s have acc: "accessible A (nextstate a)" unfolding accessible_iff by blast
  from assms(4) obtain cs t f where "path A r cs t" "final_of A t = Some f"
    by (auto simp: live_def coaccessible_iff)
  with assms(3) have "path A (nextstate a) (as @ cs) t" "final_of A t = Some f"
    by (auto simp: path_append)
  then have "coaccessible A (nextstate a)" unfolding coaccessible_iff by blast
  with acc assms(2) show ?thesis by (auto simp: live_def dest: arcs_of_valid)
qed

lemma path_connect_fwd:
  "path A p as r \<Longrightarrow> live A p \<Longrightarrow> live A r \<Longrightarrow>
   path (connect A) (index_of (kept A) p) (map (ren (kept A)) as) (index_of (kept A) r)"
proof (induction as arbitrary: p)
  case Nil
  then show ?case by simp
next
  case (Cons a as)
  then have a: "a \<in> set (arcs_of A p)" and rest: "path A (nextstate a) as r" by simp_all
  have lv: "live A (nextstate a)" using live_step [OF Cons.prems(2) a rest Cons.prems(3)] .
  have i: "index_of (kept A) p < length (kept A)" using Cons.prems(2) by (simp add: index_of_less)
  have "kept A ! index_of (kept A) p = p" using Cons.prems(2) by (simp add: index_of_nth)
  with a lv i have "ren (kept A) a \<in> set (arcs_of (connect A) (index_of (kept A) p))"
    by (simp add: arcs_of_connect)
  moreover have "path (connect A) (index_of (kept A) (nextstate a)) (map (ren (kept A)) as)
      (index_of (kept A) r)"
    using Cons.IH [OF rest lv Cons.prems(3)] .
  ultimately show ?case by simp
qed

lemma path_connect_bwd:
  "path (connect A) i cs j \<Longrightarrow> i < length (kept A) \<Longrightarrow>
   \<exists>as. path A (kept A ! i) as (kept A ! j) \<and> cs = map (ren (kept A)) as \<and> j < length (kept A)"
proof (induction cs arbitrary: i)
  case Nil
  then have "path A (kept A ! i) [] (kept A ! j) \<and> [] = map (ren (kept A)) [] \<and> j < length (kept A)"
    by simp
  then show ?case by blast
next
  case (Cons c cs)
  then have c: "c \<in> set (arcs_of (connect A) i)" and rest: "path (connect A) (nextstate c) cs j"
    by simp_all
  from c Cons.prems(2) obtain a where a: "a \<in> set (arcs_of A (kept A ! i))"
    "live A (nextstate a)" "c = ren (kept A) a"
    by (auto simp: arcs_of_connect)
  then have n: "nextstate c = index_of (kept A) (nextstate a)" by simp
  with a have lt: "nextstate c < length (kept A)" by (simp add: index_of_less)
  from Cons.IH [OF rest lt] obtain as where as:
    "path A (kept A ! nextstate c) as (kept A ! j)" "cs = map (ren (kept A)) as" "j < length (kept A)"
    by blast
  have "kept A ! nextstate c = nextstate a" using a n by (simp add: index_of_nth)
  with as a have "path A (kept A ! i) (a # as) (kept A ! j) \<and> c # cs = map (ren (kept A)) (a # as)
      \<and> j < length (kept A)"
    by simp
  then show ?case by (rule exI)
qed

lemma start_state_connect:
  "start_state (connect A) = (case start_state A of None \<Rightarrow> None
     | Some s \<Rightarrow> if live A s then Some (index_of (kept A) s) else None)"
  by (simp add: connect_def Let_def split: option.splits)

lemma accepts_connect [simp]: "accepts (connect A) x y w \<longleftrightarrow> accepts A x y w"
proof
  assume "accepts A x y w"
  then obtain s as r f where h: "start_state A = Some s" "s < num_states A" "path A s as r"
    "final_of A r = Some f" "ilabels as = x" "olabels as = y" "pweight as + f = w"
    unfolding accepts_def by blast
  have "path A s [] s" by simp
  with h have ls: "live A s"
    unfolding live_def accessible_iff coaccessible_iff by blast
  have "path A r [] r" by simp
  with h have lr: "live A r"
    unfolding live_def accessible_iff coaccessible_iff using path_valid by blast
  have p: "path (connect A) (index_of (kept A) s) (map (ren (kept A)) as) (index_of (kept A) r)"
    using path_connect_fwd [OF h(3) ls lr] .
  have "final_of (connect A) (index_of (kept A) r) = Some f"
    using lr h(4) by (simp add: final_of_connect index_of_less index_of_nth)
  moreover have "start_state (connect A) = Some (index_of (kept A) s)"
    using h(1) ls by (simp add: start_state_connect)
  moreover have "index_of (kept A) s < num_states (connect A)"
    using ls by (simp add: index_of_less)
  ultimately show "accepts (connect A) x y w"
    unfolding accepts_def using p h(5-7) 
    by (intro exI [of _ "index_of (kept A) s"] exI [of _ "map (ren (kept A)) as"]
        exI [of _ "index_of (kept A) r"] exI [of _ f]) simp
next
  assume "accepts (connect A) x y w"
  then obtain i cs j f where h: "start_state (connect A) = Some i" "i < num_states (connect A)"
    "path (connect A) i cs j" "final_of (connect A) j = Some f"
    "ilabels cs = x" "olabels cs = y" "pweight cs + f = w"
    unfolding accepts_def by blast
  from h(1) obtain s where s: "start_state A = Some s" "live A s" "i = index_of (kept A) s"
    by (auto simp: start_state_connect split: option.splits if_splits)
  from h(2) have i: "i < length (kept A)" by simp
  from path_connect_bwd [OF h(3) i] obtain as where as:
    "path A (kept A ! i) as (kept A ! j)" "cs = map (ren (kept A)) as" "j < length (kept A)"
    by blast
  have ki: "kept A ! i = s" using s by (simp add: index_of_nth)
  have "final_of A (kept A ! j) = Some f" using h(4) as(3) by (simp add: final_of_connect)
  with as ki s h(5-7) show "accepts A x y w"
    unfolding accepts_def
    by (intro exI [of _ s] exI [of _ as] exI [of _ "kept A ! j"] exI [of _ f])
       (simp add: live_def)
qed

lemma lang_connect [simp]: "lang (connect A) = lang A"
  by (simp add: lang_def)

lemma live_start_iff:
  "start_state A = Some s \<Longrightarrow> live A s \<longleftrightarrow> lang A \<noteq> {}"
proof -
  assume s: "start_state A = Some s"
  have "path A s [] s" by simp
  then have "\<exists>as. path A s as s" by blast
  then have "live A s \<longleftrightarrow> s < num_states A \<and> (\<exists>as r f. path A s as r \<and> final_of A r = Some f)"
    unfolding live_def accessible_iff coaccessible_iff using s by auto
  also have "\<dots> \<longleftrightarrow> lang A \<noteq> {}"
    using s by (auto simp: lang_def accepts_def)
  finally show ?thesis .
qed

lemma start_connect_iff: "start (connect A) = NO_STATE_ID \<longleftrightarrow> lang A = {}"
proof (cases "start_state A")
  case None
  then show ?thesis
    by (simp add: start_no_state_iff start_state_connect lang_def accepts_def)
next
  case (Some s)
  then show ?thesis
    using live_start_iff [OF Some] by (simp add: start_no_state_iff start_state_connect)
qed

subsection \<open>Composition denotes relational composition\<close>


lemma num_states_product [simp]: "num_states (product A B) = num_states A * num_states B"
  by (simp add: product_def num_states_def)

lemma pair_less: "p < m \<Longrightarrow> q < n \<Longrightarrow> p * n + q < m * (n::nat)"
proof -
  assume "p < m" "q < n"
  then have "p * n + q < p * n + n" by simp
  also have "\<dots> = Suc p * n" by simp
  also have "\<dots> \<le> m * n" using \<open>p < m\<close> by (intro mult_le_mono1) simp
  finally show ?thesis .
qed

lemma pair_div [simp]: "q < n \<Longrightarrow> (p * n + q) div n = (p::nat)"
  by simp

lemma pair_mod [simp]: "q < n \<Longrightarrow> (p * n + q) mod n = (q::nat)"
  by simp

lemma set_comp2:
  "set [f a b. a \<leftarrow> xs, b \<leftarrow> ys, P a, Q a b] =
   {f a b | a b. a \<in> set xs \<and> b \<in> set ys \<and> P a \<and> Q a b}"
  by (fastforce split: if_splits)

lemma set_comp1: "set [f a. a \<leftarrow> xs, P a] = {f a | a. a \<in> set xs \<and> P a}"
  by (fastforce split: if_splits)

lemma match_arc_fields [simp]:
  "ilabel (match_arc n a b) = ilabel a" "olabel (match_arc n a b) = olabel b"
  "weight (match_arc n a b) = weight a + weight b"
  "nextstate (match_arc n a b) = nextstate a * n + nextstate b"
  by (simp_all add: match_arc_def)

lemma left_arc_fields [simp]:
  "ilabel (left_arc n q a) = ilabel a" "olabel (left_arc n q a) = 0"
  "weight (left_arc n q a) = weight a"
  "nextstate (left_arc n q a) = nextstate a * n + q"
  by (simp_all add: left_arc_def)

lemma right_arc_fields [simp]:
  "ilabel (right_arc n p b) = 0" "olabel (right_arc n p b) = olabel b"
  "weight (right_arc n p b) = weight b"
  "nextstate (right_arc n p b) = p * n + nextstate b"
  by (simp_all add: right_arc_def)

lemma arcs_of_product:
  assumes "p < num_states A" "q < num_states B"
  shows "set (arcs_of (product A B) (p * num_states B + q)) =
    {match_arc (num_states B) a b | a b. a \<in> set (arcs_of A p) \<and> b \<in> set (arcs_of B q)
        \<and> olabel a \<noteq> 0 \<and> olabel a = ilabel b}
    \<union> {left_arc (num_states B) q a | a. a \<in> set (arcs_of A p) \<and> olabel a = 0}
    \<union> {right_arc (num_states B) p b | b. b \<in> set (arcs_of B q) \<and> ilabel b = 0}"
    (is "_ = ?R")
proof -
  let ?n = "num_states B"
  let ?k = "p * ?n + q"
  have k: "?k < num_states A * ?n" using assms by (rule pair_less)
  have st: "states (product A B) ! ?k = product_state A B ?k"
    using k by (simp add: product_def)
  have ps: "arcs (product_state A B ?k) =
       [match_arc ?n a b. a \<leftarrow> arcs_of A p, b \<leftarrow> arcs_of B q, olabel a \<noteq> 0, olabel a = ilabel b]
       @ [left_arc ?n q a. a \<leftarrow> arcs_of A p, olabel a = 0]
       @ [right_arc ?n p b. b \<leftarrow> arcs_of B q, ilabel b = 0]"
    unfolding product_state_def Let_def pair_div [OF assms(2)] pair_mod [OF assms(2)]
    by simp
  have sR: "set (arcs (product_state A B ?k)) = ?R"
    unfolding ps set_append set_comp2 set_comp1 by (simp add: Un_assoc)
  have "\<forall>c \<in> ?R. nextstate c < num_states A * ?n"
    using assms by (auto dest!: arcs_of_valid intro: pair_less)
  then have "filter (\<lambda>c. nextstate c < num_states A * ?n) (arcs (product_state A B ?k))
      = arcs (product_state A B ?k)"
    unfolding sR [symmetric] by (simp add: filter_id_conv)
  then have "arcs_of (product A B) ?k = arcs (product_state A B ?k)"
    unfolding arcs_of_def [of "product A B"] num_states_product using k by (simp add: st)
  then show ?thesis using sR by simp
qed

lemma final_of_product:
  assumes "p < num_states A" "q < num_states B"
  shows "final_of (product A B) (p * num_states B + q) = times_trop (final_of A p) (final_of B q)"
proof -
  have k: "p * num_states B + q < num_states A * num_states B" using assms by (rule pair_less)
  then show ?thesis
    unfolding final_of_def [of "product A B"] num_states_product
    using assms by (simp add: product_def product_state_def Let_def)
qed


lemma product_arc_cases:
  assumes "c \<in> set (arcs_of (product A B) (p * num_states B + q))"
    and "p < num_states A" "q < num_states B"
  obtains (match) a b where "a \<in> set (arcs_of A p)" "b \<in> set (arcs_of B q)"
      "olabel a \<noteq> 0" "olabel a = ilabel b" "c = match_arc (num_states B) a b"
  | (left) a where "a \<in> set (arcs_of A p)" "olabel a = 0" "c = left_arc (num_states B) q a"
  | (right) b where "b \<in> set (arcs_of B q)" "ilabel b = 0" "c = right_arc (num_states B) p b"
  using assms unfolding arcs_of_product [OF assms(2,3)] by blast

lemma lab_0 [simp]: "lab 0 = []"
  by (simp add: lab_def)

lemma lab_pos [simp]: "l \<noteq> 0 \<Longrightarrow> lab l = [l]"
  by (simp add: lab_def)

lemma path_product_sound:
  "path (product A B) (p * num_states B + q) cs k \<Longrightarrow> p < num_states A \<Longrightarrow> q < num_states B \<Longrightarrow>
   \<exists>as bs p' q'. k = p' * num_states B + q' \<and> p' < num_states A \<and> q' < num_states B \<and>
     path A p as p' \<and> path B q bs q' \<and> ilabels cs = ilabels as \<and> olabels cs = olabels bs \<and>
     olabels as = ilabels bs \<and> pweight cs = pweight as + pweight bs"
proof (induction cs arbitrary: p q)
  case Nil
  then have "k = p * num_states B + q \<and> p < num_states A \<and> q < num_states B \<and>
     path A p [] p \<and> path B q [] q \<and> ilabels [] = ilabels [] \<and> olabels [] = olabels [] \<and>
     olabels [] = ilabels [] \<and> pweight [] = pweight [] + pweight []"
    by simp
  then show ?case by blast
next
  case (Cons c cs)
  let ?n = "num_states B"
  from Cons.prems have c: "c \<in> set (arcs_of (product A B) (p * ?n + q))"
    and rest: "path (product A B) (nextstate c) cs k" by simp_all
  from c Cons.prems(2,3) show ?case
  proof (cases rule: product_arc_cases)
    case (match a b)
    then have v: "nextstate a < num_states A" "nextstate b < ?n"
      by (auto dest: arcs_of_valid)
    from rest match have "path (product A B) (nextstate a * ?n + nextstate b) cs k" by simp
    from Cons.IH [OF this v] obtain as bs p' q' where h:
      "k = p' * ?n + q'" "p' < num_states A" "q' < ?n" "path A (nextstate a) as p'"
      "path B (nextstate b) bs q'" "ilabels cs = ilabels as" "olabels cs = olabels bs"
      "olabels as = ilabels bs" "pweight cs = pweight as + pweight bs"
      by blast
    with match have "k = p' * ?n + q' \<and> p' < num_states A \<and> q' < ?n \<and>
      path A p (a # as) p' \<and> path B q (b # bs) q' \<and> ilabels (c # cs) = ilabels (a # as) \<and>
      olabels (c # cs) = olabels (b # bs) \<and> olabels (a # as) = ilabels (b # bs) \<and>
      pweight (c # cs) = pweight (a # as) + pweight (b # bs)"
      by simp
    then show ?thesis by blast
  next
    case (left a)
    then have v: "nextstate a < num_states A" by (auto dest: arcs_of_valid)
    from rest left have "path (product A B) (nextstate a * ?n + q) cs k" by simp
    from Cons.IH [OF this v Cons.prems(3)] obtain as bs p' q' where h:
      "k = p' * ?n + q'" "p' < num_states A" "q' < ?n" "path A (nextstate a) as p'"
      "path B q bs q'" "ilabels cs = ilabels as" "olabels cs = olabels bs"
      "olabels as = ilabels bs" "pweight cs = pweight as + pweight bs"
      by blast
    with left have "k = p' * ?n + q' \<and> p' < num_states A \<and> q' < ?n \<and>
      path A p (a # as) p' \<and> path B q bs q' \<and> ilabels (c # cs) = ilabels (a # as) \<and>
      olabels (c # cs) = olabels bs \<and> olabels (a # as) = ilabels bs \<and>
      pweight (c # cs) = pweight (a # as) + pweight bs"
      by simp
    then show ?thesis by blast
  next
    case (right b)
    then have v: "nextstate b < ?n" by (auto dest: arcs_of_valid)
    from rest right have "path (product A B) (p * ?n + nextstate b) cs k" by simp
    from Cons.IH [OF this Cons.prems(2) v] obtain as bs p' q' where h:
      "k = p' * ?n + q'" "p' < num_states A" "q' < ?n" "path A p as p'"
      "path B (nextstate b) bs q'" "ilabels cs = ilabels as" "olabels cs = olabels bs"
      "olabels as = ilabels bs" "pweight cs = pweight as + pweight bs"
      by blast
    with right have "k = p' * ?n + q' \<and> p' < num_states A \<and> q' < ?n \<and>
      path A p as p' \<and> path B q (b # bs) q' \<and> ilabels (c # cs) = ilabels as \<and>
      olabels (c # cs) = olabels (b # bs) \<and> olabels as = ilabels (b # bs) \<and>
      pweight (c # cs) = pweight as + pweight (b # bs)"
      by simp
    then show ?thesis by blast
  qed
qed

lemma path_product_complete:
  "path A p as p' \<Longrightarrow> path B q bs q' \<Longrightarrow> olabels as = ilabels bs \<Longrightarrow>
   p < num_states A \<Longrightarrow> q < num_states B \<Longrightarrow>
   \<exists>cs. path (product A B) (p * num_states B + q) cs (p' * num_states B + q') \<and>
     ilabels cs = ilabels as \<and> olabels cs = olabels bs \<and>
     pweight cs = pweight as + pweight bs"
proof (induction "length as + length bs" arbitrary: as bs p q rule: less_induct)
  case less
  let ?n = "num_states B"
  let ?P = "product A B"
  note arcs = arcs_of_product [OF less.prems(4,5)]
  consider (left) a as' where "as = a # as'" "olabel a = 0"
    | (right) b bs' where "bs = b # bs'" "ilabel b = 0"
    | (match) a as' b bs' where "as = a # as'" "olabel a \<noteq> 0" "bs = b # bs'" "ilabel b \<noteq> 0"
    | (both_nil) "as = []" "bs = []"
    | (stuckA) a as' where "as = a # as'" "olabel a \<noteq> 0" "bs = []"
    | (stuckB) b bs' where "as = []" "bs = b # bs'" "ilabel b \<noteq> 0"
    by (cases as; cases bs) auto
  then show ?case
  proof cases
    case (left a as')
    with less.prems have a: "a \<in> set (arcs_of A p)" and rest: "path A (nextstate a) as' p'"
      and eq: "olabels as' = ilabels bs" by simp_all
    from a have v: "nextstate a < num_states A" by (auto dest: arcs_of_valid)
    have "length as' + length bs < length as + length bs" using left by simp
    from less.hyps [OF this rest less.prems(2) eq v less.prems(5)] obtain cs where cs:
      "path ?P (nextstate a * ?n + q) cs (p' * ?n + q')" "ilabels cs = ilabels as'"
      "olabels cs = olabels bs" "pweight cs = pweight as' + pweight bs"
      by blast
    have "left_arc ?n q a \<in> set (arcs_of ?P (p * ?n + q))"
      unfolding arcs using a left by blast
    with cs left have "path ?P (p * ?n + q) (left_arc ?n q a # cs) (p' * ?n + q') \<and>
      ilabels (left_arc ?n q a # cs) = ilabels as \<and> olabels (left_arc ?n q a # cs) = olabels bs \<and>
      pweight (left_arc ?n q a # cs) = pweight as + pweight bs"
      by simp
    then show ?thesis by (rule exI)
  next
    case (right b bs')
    with less.prems have b: "b \<in> set (arcs_of B q)" and rest: "path B (nextstate b) bs' q'"
      and eq: "olabels as = ilabels bs'" by simp_all
    from b have v: "nextstate b < ?n" by (auto dest: arcs_of_valid)
    have "length as + length bs' < length as + length bs" using right by simp
    from less.hyps [OF this less.prems(1) rest eq less.prems(4) v] obtain cs where cs:
      "path ?P (p * ?n + nextstate b) cs (p' * ?n + q')" "ilabels cs = ilabels as"
      "olabels cs = olabels bs'" "pweight cs = pweight as + pweight bs'"
      by blast
    have "right_arc ?n p b \<in> set (arcs_of ?P (p * ?n + q))"
      unfolding arcs using b right by blast
    with cs right have "path ?P (p * ?n + q) (right_arc ?n p b # cs) (p' * ?n + q') \<and>
      ilabels (right_arc ?n p b # cs) = ilabels as \<and> olabels (right_arc ?n p b # cs) = olabels bs \<and>
      pweight (right_arc ?n p b # cs) = pweight as + pweight bs"
      by simp
    then show ?thesis by (rule exI)
  next
    case (match a as' b bs')
    with less.prems have a: "a \<in> set (arcs_of A p)" and resta: "path A (nextstate a) as' p'"
      and b: "b \<in> set (arcs_of B q)" and restb: "path B (nextstate b) bs' q'"
      and eq: "olabel a = ilabel b" "olabels as' = ilabels bs'" by simp_all
    from a b have v: "nextstate a < num_states A" "nextstate b < ?n"
      by (auto dest: arcs_of_valid)
    have "length as' + length bs' < length as + length bs" using match by simp
    from less.hyps [OF this resta restb eq(2) v] obtain cs where cs:
      "path ?P (nextstate a * ?n + nextstate b) cs (p' * ?n + q')" "ilabels cs = ilabels as'"
      "olabels cs = olabels bs'" "pweight cs = pweight as' + pweight bs'"
      by blast
    have "match_arc ?n a b \<in> set (arcs_of ?P (p * ?n + q))"
      unfolding arcs using a b match eq by blast
    with cs match have "path ?P (p * ?n + q) (match_arc ?n a b # cs) (p' * ?n + q') \<and>
      ilabels (match_arc ?n a b # cs) = ilabels as \<and> olabels (match_arc ?n a b # cs) = olabels bs \<and>
      pweight (match_arc ?n a b # cs) = pweight as + pweight bs"
      by simp
    then show ?thesis by (rule exI)
  next
    case both_nil
    with less.prems have "path ?P (p * ?n + q) [] (p' * ?n + q') \<and>
      ilabels [] = ilabels as \<and> olabels [] = olabels bs \<and> pweight [] = pweight as + pweight bs"
      by simp
    then show ?thesis by (rule exI)
  next
    case (stuckA a as')
    with less.prems(3) show ?thesis by simp
  next
    case (stuckB b bs')
    with less.prems(3) show ?thesis by simp
  qed
qed

lemma times_trop_Some_iff:
  "times_trop a b = Some f \<longleftrightarrow> (\<exists>f1 f2. a = Some f1 \<and> b = Some f2 \<and> f = f1 + f2)"
  by (cases a; cases b) auto

lemma accepts_product:
  "accepts (product A B) x z w \<longleftrightarrow>
   (\<exists>y w1 w2. accepts A x y w1 \<and> accepts B y z w2 \<and> w = w1 + w2)"
proof
  let ?n = "num_states B"
  assume "accepts (product A B) x z w"
  then obtain k0 cs k f where h: "start_state (product A B) = Some k0"
    "path (product A B) k0 cs k" "final_of (product A B) k = Some f"
    "ilabels cs = x" "olabels cs = z" "pweight cs + f = w"
    unfolding accepts_def by blast
  from h(1) obtain s t where st: "start_state A = Some s" "start_state B = Some t"
    "s < num_states A" "t < ?n" "k0 = s * ?n + t"
    by (auto simp: product_def split: option.splits if_splits)
  from h(2) st have "path (product A B) (s * ?n + t) cs k" by simp
  from path_product_sound [OF this st(3,4)] obtain as bs p' q' where p:
    "k = p' * ?n + q'" "p' < num_states A" "q' < ?n" "path A s as p'" "path B t bs q'"
    "ilabels cs = ilabels as" "olabels cs = olabels bs" "olabels as = ilabels bs"
    "pweight cs = pweight as + pweight bs"
    by blast
  from h(3) p obtain f1 f2 where f: "final_of A p' = Some f1" "final_of B q' = Some f2"
    "f = f1 + f2"
    by (auto simp: final_of_product times_trop_Some_iff)
  have "accepts A x (olabels as) (pweight as + f1)"
    unfolding accepts_def using st p f h
    by (intro exI [of _ s] exI [of _ as] exI [of _ p'] exI [of _ f1]) simp
  moreover have "accepts B (olabels as) z (pweight bs + f2)"
    unfolding accepts_def using st p f h
    by (intro exI [of _ t] exI [of _ bs] exI [of _ q'] exI [of _ f2]) simp
  moreover have "w = (pweight as + f1) + (pweight bs + f2)"
    using h(6) p(9) f(3) by simp
  ultimately show "\<exists>y w1 w2. accepts A x y w1 \<and> accepts B y z w2 \<and> w = w1 + w2"
    by blast
next
  let ?n = "num_states B"
  assume "\<exists>y w1 w2. accepts A x y w1 \<and> accepts B y z w2 \<and> w = w1 + w2"
  then obtain y w1 w2 where a: "accepts A x y w1" and b: "accepts B y z w2" and w: "w = w1 + w2"
    by blast
  from a obtain s as p' f1 where ha: "start_state A = Some s" "s < num_states A"
    "path A s as p'" "final_of A p' = Some f1" "ilabels as = x" "olabels as = y"
    "pweight as + f1 = w1"
    unfolding accepts_def by blast
  from b obtain t bs q' f2 where hb: "start_state B = Some t" "t < ?n"
    "path B t bs q'" "final_of B q' = Some f2" "ilabels bs = y" "olabels bs = z"
    "pweight bs + f2 = w2"
    unfolding accepts_def by blast
  have eq: "olabels as = ilabels bs" using ha hb by simp
  from path_product_complete [OF ha(3) hb(3) eq ha(2) hb(2)] obtain cs where cs:
    "path (product A B) (s * ?n + t) cs (p' * ?n + q')" "ilabels cs = ilabels as"
    "olabels cs = olabels bs" "pweight cs = pweight as + pweight bs"
    by blast
  have v: "p' < num_states A" "q' < ?n"
    using path_valid [OF ha(3) ha(2)] path_valid [OF hb(3) hb(2)] by simp_all
  have st: "start_state (product A B) = Some (s * ?n + t)"
    using ha hb by (simp add: product_def)
  have fin: "final_of (product A B) (p' * ?n + q') = Some (f1 + f2)"
    using v ha hb by (simp add: final_of_product)
  have lt: "s * ?n + t < num_states (product A B)"
    using ha(2) hb(2) by (simp add: pair_less)
  have "pweight cs + (f1 + f2) = w" using cs ha hb w by simp
  with st lt cs fin ha hb show "accepts (product A B) x z w"
    unfolding accepts_def
    by (intro exI [of _ "s * ?n + t"] exI [of _ cs] exI [of _ "p' * ?n + q'"]
        exI [of _ "f1 + f2"]) simp
qed

lemma accepts_compose:
  "accepts (compose A B) x z w \<longleftrightarrow>
   (\<exists>y w1 w2. accepts A x y w1 \<and> accepts B y z w2 \<and> w = w1 + w2)"
  by (simp add: compose_def accepts_product)

lemma lang_compose: "lang (compose A B) = lang A O lang B"
  by (auto simp: lang_def accepts_compose relcomp_unfold)

lemma start_compose_iff: "start (compose A B) = NO_STATE_ID \<longleftrightarrow> lang A O lang B = {}"
  unfolding compose_def start_connect_iff
  using lang_compose [of A B] by (simp add: compose_def)

subsection \<open>Projection\<close>

lemma num_states_project [simp]: "num_states (project t A) = num_states A"
  by (simp add: project_def num_states_def)

lemma start_state_project [simp]: "start_state (project t A) = start_state A"
  by (simp add: project_def)

lemma nextstate_project_arc [simp]: "nextstate (project_arc t a) = nextstate a"
  by (cases t) (simp_all add: project_arc_def)

lemma weight_project_arc [simp]: "weight (project_arc t a) = weight a"
  by (cases t) (simp_all add: project_arc_def)

lemma labels_project_arc [simp]:
  "ilabel (project_arc Output a) = olabel a" "olabel (project_arc Output a) = olabel a"
  "ilabel (project_arc Input a) = ilabel a" "olabel (project_arc Input a) = ilabel a"
  by (simp_all add: project_arc_def)

lemma arcs_of_project: "arcs_of (project t A) q = map (project_arc t) (arcs_of A q)"
proof (cases "q < num_states A")
  case True
  then have "states (project t A) ! q = (states A ! q)\<lparr>arcs := map (project_arc t) (arcs (states A ! q))\<rparr>"
    by (simp add: project_def num_states_def)
  with True show ?thesis
    unfolding arcs_of_def [of "project t A"] arcs_of_def [of A]
    by (simp add: filter_map comp_def)
next
  case False
  then show ?thesis by (simp add: arcs_of_def)
qed

lemma final_of_project [simp]: "final_of (project t A) q = final_of A q"
  by (simp add: final_of_def project_def num_states_def)

lemma path_project:
  "path (project t A) p cs r \<longleftrightarrow> (\<exists>as. cs = map (project_arc t) as \<and> path A p as r)"
proof (induction cs arbitrary: p)
  case Nil
  then show ?case by simp
next
  case (Cons c cs)
  show ?case
  proof
    assume "path (project t A) p (c # cs) r"
    then obtain a where a: "a \<in> set (arcs_of A p)" "c = project_arc t a"
      and "path (project t A) (nextstate c) cs r"
      by (auto simp: arcs_of_project)
    with Cons.IH obtain as where "cs = map (project_arc t) as" "path A (nextstate a) as r"
      by auto
    with a have "c # cs = map (project_arc t) (a # as) \<and> path A p (a # as) r" by simp
    then show "\<exists>as. c # cs = map (project_arc t) as \<and> path A p as r" by (rule exI)
  next
    assume "\<exists>as. c # cs = map (project_arc t) as \<and> path A p as r"
    then show "path (project t A) p (c # cs) r"
    proof (elim exE conjE)
      fix as
      assume as: "c # cs = map (project_arc t) as" "path A p as r"
      then obtain a as' where "as = a # as'" by (cases as) auto
      with as Cons.IH show "path (project t A) p (c # cs) r"
        by (auto simp: arcs_of_project)
    qed
  qed
qed

lemma labels_project_Output [simp]:
  "ilabels (map (project_arc Output) as) = olabels as"
  "olabels (map (project_arc Output) as) = olabels as"
  by (induction as) simp_all

lemma labels_project_Input [simp]:
  "ilabels (map (project_arc Input) as) = ilabels as"
  "olabels (map (project_arc Input) as) = ilabels as"
  by (induction as) simp_all

lemma pweight_project [simp]: "pweight (map (project_arc t) as) = pweight as"
  by (induction as) simp_all

lemma accepts_project_Output:
  "accepts (project Output A) x y w \<longleftrightarrow> x = y \<and> (\<exists>x'. accepts A x' y w)"
proof
  assume "accepts (project Output A) x y w"
  then obtain s cs r f where h: "start_state (project Output A) = Some s"
    "s < num_states (project Output A)" "path (project Output A) s cs r"
    "final_of (project Output A) r = Some f" "x = ilabels cs" "y = olabels cs"
    "w = pweight cs + f"
    by (rule acceptsE)
  from h(3) obtain as where as: "cs = map (project_arc Output) as" "path A s as r"
    unfolding path_project by auto
  have "accepts A (ilabels as) (olabels as) (pweight as + f)"
    using h(1,2,4) as(2) by (intro acceptsI) simp_all
  with h as show "x = y \<and> (\<exists>x'. accepts A x' y w)" by auto
next
  assume "x = y \<and> (\<exists>x'. accepts A x' y w)"
  then obtain x' where xy: "x = y" and acc: "accepts A x' y w" by blast
  from acc obtain s as r f where h: "start_state A = Some s" "s < num_states A" "path A s as r"
    "final_of A r = Some f" "x' = ilabels as" "y = olabels as" "w = pweight as + f"
    by (rule acceptsE)
  have "path (project Output A) s (map (project_arc Output) as) r"
    unfolding path_project using h(3) by blast
  then have "accepts (project Output A) (ilabels (map (project_arc Output) as))
      (olabels (map (project_arc Output) as)) (pweight (map (project_arc Output) as) + f)"
    using h(1,2,4) by (intro acceptsI) simp_all
  with h xy show "accepts (project Output A) x y w" by simp
qed

lemma accepts_project_Input:
  "accepts (project Input A) x y w \<longleftrightarrow> x = y \<and> (\<exists>y'. accepts A x y' w)"
proof
  assume "accepts (project Input A) x y w"
  then obtain s cs r f where h: "start_state (project Input A) = Some s"
    "s < num_states (project Input A)" "path (project Input A) s cs r"
    "final_of (project Input A) r = Some f" "x = ilabels cs" "y = olabels cs"
    "w = pweight cs + f"
    by (rule acceptsE)
  from h(3) obtain as where as: "cs = map (project_arc Input) as" "path A s as r"
    unfolding path_project by auto
  have "accepts A (ilabels as) (olabels as) (pweight as + f)"
    using h(1,2,4) as(2) by (intro acceptsI) simp_all
  with h as show "x = y \<and> (\<exists>y'. accepts A x y' w)" by auto
next
  assume "x = y \<and> (\<exists>y'. accepts A x y' w)"
  then obtain y' where xy: "x = y" and acc: "accepts A x y' w" by blast
  from acc obtain s as r f where h: "start_state A = Some s" "s < num_states A" "path A s as r"
    "final_of A r = Some f" "x = ilabels as" "y' = olabels as" "w = pweight as + f"
    by (rule acceptsE)
  have "path (project Input A) s (map (project_arc Input) as) r"
    unfolding path_project using h(3) by blast
  then have "accepts (project Input A) (ilabels (map (project_arc Input) as))
      (olabels (map (project_arc Input) as)) (pweight (map (project_arc Input) as) + f)"
    using h(1,2,4) by (intro acceptsI) simp_all
  with h xy show "accepts (project Input A) x y w" by simp
qed

lemma lang_project_Output: "lang (project Output A) = {(y, y) | y. y \<in> ostrings A}"
  unfolding lang_def ostrings_def accepts_project_Output by force

lemma lang_project_Input: "lang (project Input A) = {(x, x) | x. x \<in> istrings A}"
  unfolding lang_def istrings_def accepts_project_Input by force

subsection \<open>Epsilon removal\<close>

lemma eps_arcs_iff:
  "(r, w, q) \<in> set (eps_arcs A) \<longleftrightarrow>
   (\<exists>a \<in> set (arcs_of A r). is_eps a \<and> weight a = w \<and> nextstate a = q)"
proof
  assume "(r, w, q) \<in> set (eps_arcs A)"
  then show "\<exists>a \<in> set (arcs_of A r). is_eps a \<and> weight a = w \<and> nextstate a = q"
    by (auto simp: eps_arcs_def)
next
  assume "\<exists>a \<in> set (arcs_of A r). is_eps a \<and> weight a = w \<and> nextstate a = q"
  then obtain a where a: "a \<in> set (arcs_of A r)" "is_eps a" "weight a = w" "nextstate a = q"
    by blast
  then have "r < num_states A" by (auto dest: arcs_of_valid)
  with a show "(r, w, q) \<in> set (eps_arcs A)"
    by (force simp: eps_arcs_def)
qed

lemma eps_rel_iff:
  "(r, q) \<in> eps_rel A \<longleftrightarrow> (\<exists>a \<in> set (arcs_of A r). is_eps a \<and> nextstate a = q)"
proof -
  have "(r, q) \<in> eps_rel A \<longleftrightarrow> (\<exists>w. (r, w, q) \<in> set (eps_arcs A))"
    by (force simp: eps_rel_def)
  then show ?thesis by (auto simp: eps_arcs_iff)
qed

lemma eps_rel_valid: "(r, q) \<in> eps_rel A \<Longrightarrow> r < num_states A \<and> q < num_states A"
  by (auto simp: eps_rel_iff dest: arcs_of_valid)

lemma length_eps_closure [simp]: "length (eps_closure A k p) = num_states A"
  by (induction k) (simp_all add: Let_def)

lemma plus_trop_None_iff: "plus_trop a b = None \<longleftrightarrow> a = None \<and> b = None"
  by (cases a; cases b) simp_all

lemma foldr_plus_trop_None_iff:
  "foldr plus_trop xs z = None \<longleftrightarrow> z = None \<and> (\<forall>x \<in> set xs. x = None)"
  by (induction xs) (auto simp: plus_trop_None_iff)

lemma times_trop_None_iff: "times_trop a (Some w) = None \<longleftrightarrow> a = None"
  by (cases a) simp_all

lemma eps_closure_Suc_nth:
  assumes "q < num_states A"
  shows "eps_closure A (Suc k) p ! q = None \<longleftrightarrow>
    eps_closure A k p ! q = None \<and>
    (\<forall>r w. (r, w, q) \<in> set (eps_arcs A) \<longrightarrow> eps_closure A k p ! r = None)"
proof -
  let ?d = "eps_closure A k p"
  have "eps_closure A (Suc k) p ! q = foldr plus_trop
       [times_trop (?d ! r) (Some w). (r, w, q') \<leftarrow> eps_arcs A, q' = q] (?d ! q)"
    using assms by (simp add: Let_def)
  moreover have "(\<forall>x \<in> set [times_trop (?d ! r) (Some w). (r, w, q') \<leftarrow> eps_arcs A, q' = q].
      x = None) \<longleftrightarrow> (\<forall>r w. (r, w, q) \<in> set (eps_arcs A) \<longrightarrow> ?d ! r = None)"
    by (auto simp: times_trop_None_iff split: if_splits) 
  ultimately show ?thesis by (simp add: foldr_plus_trop_None_iff)
qed

lemma eps_closure_support:
  "q < num_states A \<Longrightarrow>
   eps_closure A k p ! q \<noteq> None \<longleftrightarrow> (\<exists>i \<le> k. (p, q) \<in> eps_rel A ^^ i)"
proof (induction k arbitrary: q)
  case 0
  then show ?case by (simp add: one_trop_def zero_trop_def)
next
  case (Suc k)
  let ?E = "eps_rel A"
  have step: "(\<exists>r w. (r, w, q) \<in> set (eps_arcs A) \<and> eps_closure A k p ! r \<noteq> None)
      \<longleftrightarrow> (\<exists>r i. (r, q) \<in> ?E \<and> i \<le> k \<and> (p, r) \<in> ?E ^^ i)"
  proof
    assume "\<exists>r w. (r, w, q) \<in> set (eps_arcs A) \<and> eps_closure A k p ! r \<noteq> None"
    then obtain r w where r: "(r, w, q) \<in> set (eps_arcs A)" "eps_closure A k p ! r \<noteq> None"
      by blast
    then have e: "(r, q) \<in> ?E" by (force simp: eps_rel_def)
    then have "r < num_states A" by (auto dest: eps_rel_valid)
    from Suc.IH [OF this] r(2) obtain i where "i \<le> k" "(p, r) \<in> ?E ^^ i" by blast
    with e show "\<exists>r i. (r, q) \<in> ?E \<and> i \<le> k \<and> (p, r) \<in> ?E ^^ i" by blast
  next
    assume "\<exists>r i. (r, q) \<in> ?E \<and> i \<le> k \<and> (p, r) \<in> ?E ^^ i"
    then obtain r i where r: "(r, q) \<in> ?E" "i \<le> k" "(p, r) \<in> ?E ^^ i" by blast
    then have "r < num_states A" by (auto dest: eps_rel_valid)
    from Suc.IH [OF this] r have n: "eps_closure A k p ! r \<noteq> None" by blast
    from r(1) obtain w where "(r, w, q) \<in> set (eps_arcs A)" by (force simp: eps_rel_def)
    with n show "\<exists>r w. (r, w, q) \<in> set (eps_arcs A) \<and> eps_closure A k p ! r \<noteq> None"
      by blast
  qed
  have "eps_closure A (Suc k) p ! q \<noteq> None \<longleftrightarrow>
      eps_closure A k p ! q \<noteq> None \<or>
      (\<exists>r w. (r, w, q) \<in> set (eps_arcs A) \<and> eps_closure A k p ! r \<noteq> None)"
    using eps_closure_Suc_nth [OF Suc.prems, of k p] by auto
  also have "\<dots> \<longleftrightarrow> (\<exists>i \<le> k. (p, q) \<in> ?E ^^ i) \<or>
      (\<exists>r i. (r, q) \<in> ?E \<and> i \<le> k \<and> (p, r) \<in> ?E ^^ i)"
    using Suc.IH [OF Suc.prems] step by simp
  also have "\<dots> \<longleftrightarrow> (\<exists>i \<le> Suc k. (p, q) \<in> ?E ^^ i)"
  proof
    assume "(\<exists>i \<le> k. (p, q) \<in> ?E ^^ i) \<or> (\<exists>r i. (r, q) \<in> ?E \<and> i \<le> k \<and> (p, r) \<in> ?E ^^ i)"
    then show "\<exists>i \<le> Suc k. (p, q) \<in> ?E ^^ i"
    proof
      assume "\<exists>i \<le> k. (p, q) \<in> ?E ^^ i"
      then show ?thesis using le_Suc_eq by blast
    next
      assume "\<exists>r i. (r, q) \<in> ?E \<and> i \<le> k \<and> (p, r) \<in> ?E ^^ i"
      then obtain r i where "(r, q) \<in> ?E" "i \<le> k" "(p, r) \<in> ?E ^^ i" by blast
      then have "(p, q) \<in> ?E ^^ Suc i" "Suc i \<le> Suc k" by auto
      then show ?thesis by blast
    qed
  next
    assume "\<exists>i \<le> Suc k. (p, q) \<in> ?E ^^ i"
    then obtain i where i: "i \<le> Suc k" "(p, q) \<in> ?E ^^ i" by blast
    show "(\<exists>i \<le> k. (p, q) \<in> ?E ^^ i) \<or> (\<exists>r i. (r, q) \<in> ?E \<and> i \<le> k \<and> (p, r) \<in> ?E ^^ i)"
    proof (cases i)
      case 0
      with i show ?thesis by blast
    next
      case (Suc j)
      with i obtain r where "(p, r) \<in> ?E ^^ j" "(r, q) \<in> ?E" by auto
      moreover have "j \<le> k" using i Suc by simp
      ultimately show ?thesis by blast
    qed
  qed
  finally show ?case .
qed

lemma card_eps_rel: "card (eps_rel A) \<le> length (eps_arcs A)"
  unfolding eps_rel_def
  by (rule order_trans [OF card_image_le]) (simp_all add: card_length)

lemma eps_closure_rtrancl:
  assumes "q < num_states A"
  shows "eps_closure A (length (eps_arcs A)) p ! q \<noteq> None \<longleftrightarrow> (p, q) \<in> (eps_rel A)\<^sup>*"
proof -
  have fin: "finite (eps_rel A)" by (simp add: eps_rel_def)
  have "(p, q) \<in> (eps_rel A)\<^sup>* \<longleftrightarrow> (\<exists>i \<le> card (eps_rel A). (p, q) \<in> eps_rel A ^^ i)"
    unfolding rtrancl_finite_eq_relpow [OF fin] by auto
  also have "\<dots> \<longleftrightarrow> (\<exists>i \<le> length (eps_arcs A). (p, q) \<in> eps_rel A ^^ i)"
  proof
    assume "\<exists>i \<le> card (eps_rel A). (p, q) \<in> eps_rel A ^^ i"
    then show "\<exists>i \<le> length (eps_arcs A). (p, q) \<in> eps_rel A ^^ i"
      using card_eps_rel [of A] by (meson order_trans)
  next
    assume "\<exists>i \<le> length (eps_arcs A). (p, q) \<in> eps_rel A ^^ i"
    then have "(p, q) \<in> (eps_rel A)\<^sup>*" by (auto intro: relpow_imp_rtrancl)
    then show "\<exists>i \<le> card (eps_rel A). (p, q) \<in> eps_rel A ^^ i"
      unfolding rtrancl_finite_eq_relpow [OF fin] by auto
  qed
  finally show ?thesis using eps_closure_support [OF assms] by simp
qed

lemma eps_labels: "list_all is_eps as \<Longrightarrow> ilabels as = [] \<and> olabels as = []"
  by (induction as) (simp_all add: is_eps_def)

lemma eps_rtrancl_path:
  "(p, q) \<in> (eps_rel A)\<^sup>* \<Longrightarrow> \<exists>as. path A p as q \<and> list_all is_eps as"
proof (induction rule: converse_rtrancl_induct)
  case base
  have "path A q [] q \<and> list_all is_eps []" by simp
  then show ?case by (rule exI)
next
  case (step p r)
  then obtain a where a: "a \<in> set (arcs_of A p)" "is_eps a" "nextstate a = r"
    by (auto simp: eps_rel_iff)
  from step.IH obtain as where "path A r as q" "list_all is_eps as" by blast
  with a have "path A p (a # as) q \<and> list_all is_eps (a # as)" by simp
  then show ?case by (rule exI)
qed

lemma eps_rtrancl_valid: "(p, q) \<in> (eps_rel A)\<^sup>* \<Longrightarrow> p < num_states A \<Longrightarrow> q < num_states A"
  by (induction rule: rtrancl_induct) (auto dest: eps_rel_valid)


lemma num_states_rmepsilon_states [simp]: "num_states (rmepsilon_states A) = num_states A"
  by (simp add: rmepsilon_states_def num_states_def)

lemma start_state_rmepsilon_states [simp]:
  "start_state (rmepsilon_states A) = start_state A"
  by (simp add: rmepsilon_states_def)

lemma reweight_fields [simp]:
  "ilabel (reweight w a) = ilabel a" "olabel (reweight w a) = olabel a"
  "nextstate (reweight w a) = nextstate a" "weight (reweight w a) = w + weight a"
  by (simp_all add: reweight_def)

lemma arcs_of_rmepsilon_states:
  assumes "p < num_states A"
  shows "set (arcs_of (rmepsilon_states A) p) =
    {reweight dw a | q a dw. q < num_states A \<and>
       eps_closure A (length (eps_arcs A)) p ! q = Some dw \<and>
       a \<in> set (arcs_of A q) \<and> \<not> is_eps a}" (is "_ = ?R")
proof -
  have st: "states (rmepsilon_states A) ! p = rmepsilon_state A p"
    using assms by (simp add: rmepsilon_states_def)
  have sR: "set (arcs (rmepsilon_state A p)) = ?R"
  proof (intro set_eqI iffI)
    fix c
    assume "c \<in> set (arcs (rmepsilon_state A p))"
    then show "c \<in> ?R"
      unfolding rmepsilon_state_def Let_def
      by (auto split: option.splits) (metis)
  next
    fix c
    assume "c \<in> ?R"
    then obtain q a dw where h: "q < num_states A"
      "eps_closure A (length (eps_arcs A)) p ! q = Some dw" "a \<in> set (arcs_of A q)"
      "\<not> is_eps a" "c = reweight dw a"
      by blast
    then show "c \<in> set (arcs (rmepsilon_state A p))"
      unfolding rmepsilon_state_def Let_def
      by (auto intro!: bexI [of _ q])
  qed
  have "\<forall>c \<in> ?R. nextstate c < num_states A"
    by (auto dest: arcs_of_valid)
  then have "filter (\<lambda>c. nextstate c < num_states A) (arcs (rmepsilon_state A p))
      = arcs (rmepsilon_state A p)"
    unfolding sR [symmetric] by (simp add: filter_id_conv)
  then have "arcs_of (rmepsilon_states A) p = arcs (rmepsilon_state A p)"
    unfolding arcs_of_def [of "rmepsilon_states A"] num_states_rmepsilon_states
    using assms by (simp add: st)
  then show ?thesis using sR by simp
qed

lemma final_of_rmepsilon_states:
  assumes "p < num_states A"
  shows "final_of (rmepsilon_states A) p \<noteq> None \<longleftrightarrow>
    (\<exists>q < num_states A. eps_closure A (length (eps_arcs A)) p ! q \<noteq> None \<and>
       final_of A q \<noteq> None)"
proof -
  have st: "states (rmepsilon_states A) ! p = rmepsilon_state A p"
    using assms by (simp add: rmepsilon_states_def)
  have t: "times_trop a b = None \<longleftrightarrow> a = None \<or> b = None" for a b
    by (cases a; cases b) simp_all
  have f: "final_of (rmepsilon_states A) p = final (rmepsilon_state A p)"
    unfolding final_of_def [of "rmepsilon_states A"] num_states_rmepsilon_states
    using assms by (simp add: st)
  have "final (rmepsilon_state A p) = None \<longleftrightarrow>
    (\<forall>q < num_states A. eps_closure A (length (eps_arcs A)) p ! q = None \<or>
       final_of A q = None)"
    unfolding rmepsilon_state_def Let_def
    by (auto simp: foldr_plus_trop_None_iff zero_trop_def t)
  then show ?thesis unfolding f by simp
qed

lemma rmepsilon_fwd:
  "path A p as r \<Longrightarrow> final_of A r \<noteq> None \<Longrightarrow> (p0, p) \<in> (eps_rel A)\<^sup>* \<Longrightarrow>
   p0 < num_states A \<Longrightarrow>
   \<exists>cs r'. path (rmepsilon_states A) p0 cs r' \<and> final_of (rmepsilon_states A) r' \<noteq> None \<and>
     ilabels cs = ilabels as \<and> olabels cs = olabels as"
proof (induction as arbitrary: p p0)
  case Nil
  then have r: "(p0, r) \<in> (eps_rel A)\<^sup>*" by simp
  then have v: "r < num_states A" using Nil.prems(4) by (rule eps_rtrancl_valid)
  have "eps_closure A (length (eps_arcs A)) p0 ! r \<noteq> None"
    using eps_closure_rtrancl [OF v, of p0] r by blast
  with v Nil.prems(2) have "final_of (rmepsilon_states A) p0 \<noteq> None"
    unfolding final_of_rmepsilon_states [OF Nil.prems(4)] by blast
  then have "path (rmepsilon_states A) p0 [] p0 \<and> final_of (rmepsilon_states A) p0 \<noteq> None \<and>
     ilabels [] = ilabels [] \<and> olabels [] = olabels []"
    by simp
  then show ?case by blast
next
  case (Cons a as)
  then have a: "a \<in> set (arcs_of A p)" and rest: "path A (nextstate a) as r" by simp_all
  have vp: "p < num_states A" using Cons.prems(3,4) by (rule eps_rtrancl_valid)
  have vn: "nextstate a < num_states A" using a by (auto dest: arcs_of_valid)
  show ?case
  proof (cases "is_eps a")
    case True
    with a have "(p, nextstate a) \<in> eps_rel A" by (auto simp: eps_rel_iff)
    with Cons.prems(3) have "(p0, nextstate a) \<in> (eps_rel A)\<^sup>*" by simp
    from Cons.IH [OF rest Cons.prems(2) this Cons.prems(4)] obtain cs r' where
      "path (rmepsilon_states A) p0 cs r'" "final_of (rmepsilon_states A) r' \<noteq> None"
      "ilabels cs = ilabels as" "olabels cs = olabels as"
      by blast
    with True have "path (rmepsilon_states A) p0 cs r' \<and>
      final_of (rmepsilon_states A) r' \<noteq> None \<and>
      ilabels cs = ilabels (a # as) \<and> olabels cs = olabels (a # as)"
      by (simp add: is_eps_def)
    then show ?thesis by blast
  next
    case False
    from Cons.prems(3) vp obtain dw where dw:
      "eps_closure A (length (eps_arcs A)) p0 ! p = Some dw"
      using eps_closure_rtrancl [OF vp, of p0] by auto
    let ?c = "reweight dw a"
    have c: "?c \<in> set (arcs_of (rmepsilon_states A) p0)"
      unfolding arcs_of_rmepsilon_states [OF Cons.prems(4)] using vp dw a False by blast
    have "(nextstate a, nextstate a) \<in> (eps_rel A)\<^sup>*" by simp
    from Cons.IH [OF rest Cons.prems(2) this vn] obtain cs r' where cs:
      "path (rmepsilon_states A) (nextstate a) cs r'"
      "final_of (rmepsilon_states A) r' \<noteq> None"
      "ilabels cs = ilabels as" "olabels cs = olabels as"
      by blast
    with c have "path (rmepsilon_states A) p0 (?c # cs) r' \<and>
      final_of (rmepsilon_states A) r' \<noteq> None \<and>
      ilabels (?c # cs) = ilabels (a # as) \<and> olabels (?c # cs) = olabels (a # as)"
      by simp
    then show ?thesis by blast
  qed
qed

lemma rmepsilon_bwd:
  "path (rmepsilon_states A) p cs r' \<Longrightarrow> final_of (rmepsilon_states A) r' \<noteq> None \<Longrightarrow>
   p < num_states A \<Longrightarrow>
   \<exists>as r. path A p as r \<and> final_of A r \<noteq> None \<and>
     ilabels as = ilabels cs \<and> olabels as = olabels cs"
proof (induction cs arbitrary: p)
  case Nil
  then have "final_of (rmepsilon_states A) p \<noteq> None" by simp
  then obtain q where q: "q < num_states A"
    "eps_closure A (length (eps_arcs A)) p ! q \<noteq> None" "final_of A q \<noteq> None"
    unfolding final_of_rmepsilon_states [OF Nil.prems(3)] by blast
  then have "(p, q) \<in> (eps_rel A)\<^sup>*"
    using eps_closure_rtrancl [OF q(1), of p] by blast
  then obtain es where es: "path A p es q" "list_all is_eps es"
    by (auto dest: eps_rtrancl_path)
  with q eps_labels [OF es(2)] have "path A p es q \<and> final_of A q \<noteq> None \<and>
     ilabels es = ilabels [] \<and> olabels es = olabels []"
    by simp
  then show ?case by blast
next
  case (Cons c cs)
  then have c: "c \<in> set (arcs_of (rmepsilon_states A) p)"
    and rest: "path (rmepsilon_states A) (nextstate c) cs r'" by simp_all
  from c obtain q a dw where q: "q < num_states A"
    "eps_closure A (length (eps_arcs A)) p ! q = Some dw" "a \<in> set (arcs_of A q)"
    "\<not> is_eps a" "c = reweight dw a"
    unfolding arcs_of_rmepsilon_states [OF Cons.prems(3)] by blast
  then have "(p, q) \<in> (eps_rel A)\<^sup>*"
    using eps_closure_rtrancl [OF q(1), of p] by simp
  then obtain es where es: "path A p es q" "list_all is_eps es"
    by (auto dest: eps_rtrancl_path)
  have vn: "nextstate a < num_states A" using q(3) by (auto dest: arcs_of_valid)
  from rest q(5) have "path (rmepsilon_states A) (nextstate a) cs r'" by simp
  from Cons.IH [OF this Cons.prems(2) vn] obtain as r where as:
    "path A (nextstate a) as r" "final_of A r \<noteq> None"
    "ilabels as = ilabels cs" "olabels as = olabels cs"
    by blast
  have "path A p (es @ a # as) r"
    unfolding path_append using es(1) q(3) as(1) by auto
  with as q(5) eps_labels [OF es(2)] have "path A p (es @ a # as) r \<and> final_of A r \<noteq> None \<and>
     ilabels (es @ a # as) = ilabels (c # cs) \<and> olabels (es @ a # as) = olabels (c # cs)"
    by simp
  then show ?case by blast
qed

lemma lang_iff:
  "(x, y) \<in> lang A \<longleftrightarrow> (\<exists>s as r. start_state A = Some s \<and> s < num_states A \<and>
     path A s as r \<and> final_of A r \<noteq> None \<and> ilabels as = x \<and> olabels as = y)"
proof
  assume "(x, y) \<in> lang A"
  then obtain w where "accepts A x y w" by (auto simp: lang_def)
  then obtain s as r f where "start_state A = Some s" "s < num_states A" "path A s as r"
    "final_of A r = Some f" "x = ilabels as" "y = olabels as"
    by (rule acceptsE)
  then have "start_state A = Some s \<and> s < num_states A \<and>
     path A s as r \<and> final_of A r \<noteq> None \<and> ilabels as = x \<and> olabels as = y"
    by simp
  then show "\<exists>s as r. start_state A = Some s \<and> s < num_states A \<and>
     path A s as r \<and> final_of A r \<noteq> None \<and> ilabels as = x \<and> olabels as = y"
    by blast
next
  assume "\<exists>s as r. start_state A = Some s \<and> s < num_states A \<and>
     path A s as r \<and> final_of A r \<noteq> None \<and> ilabels as = x \<and> olabels as = y"
  then obtain s as r f where h: "start_state A = Some s" "s < num_states A" "path A s as r"
    "final_of A r = Some f" "ilabels as = x" "olabels as = y"
    by auto
  from acceptsI [OF h(1-4)] h(5,6) show "(x, y) \<in> lang A"
    by (auto simp: lang_def)
qed

lemma lang_rmepsilon_states: "lang (rmepsilon_states A) = lang A"
proof (intro set_eqI iffI; clarify)
  fix x y
  assume "(x, y) \<in> lang (rmepsilon_states A)"
  then obtain s cs r' where h: "start_state A = Some s" "s < num_states A"
    "path (rmepsilon_states A) s cs r'" "final_of (rmepsilon_states A) r' \<noteq> None"
    "ilabels cs = x" "olabels cs = y"
    unfolding lang_iff [of x y "rmepsilon_states A"] by auto
  from rmepsilon_bwd [OF h(3,4,2)] obtain as r where
    "path A s as r" "final_of A r \<noteq> None" "ilabels as = ilabels cs" "olabels as = olabels cs"
    by blast
  with h show "(x, y) \<in> lang A" unfolding lang_iff [of x y A] by auto
next
  fix x y
  assume "(x, y) \<in> lang A"
  then obtain s as r where h: "start_state A = Some s" "s < num_states A"
    "path A s as r" "final_of A r \<noteq> None" "ilabels as = x" "olabels as = y"
    unfolding lang_iff [of x y A] by auto
  have "(s, s) \<in> (eps_rel A)\<^sup>*" by simp
  from rmepsilon_fwd [OF h(3,4) this h(2)] obtain cs r' where
    "path (rmepsilon_states A) s cs r'" "final_of (rmepsilon_states A) r' \<noteq> None"
    "ilabels cs = ilabels as" "olabels cs = olabels as"
    by blast
  with h show "(x, y) \<in> lang (rmepsilon_states A)"
    unfolding lang_iff [of x y "rmepsilon_states A"] by auto
qed

lemma lang_rmepsilon [simp]: "lang (rmepsilon A) = lang A"
  by (simp add: rmepsilon_def lang_rmepsilon_states)

lemma ostrings_rmepsilon [simp]: "ostrings (rmepsilon A) = ostrings A"
  by (simp add: ostrings_def)

lemma is_eps_ren [simp]: "is_eps (ren (kept A) a) = is_eps a"
  by (simp add: is_eps_def)

lemma epsilon_free_connect: "epsilon_free A \<Longrightarrow> epsilon_free (connect A)"
  unfolding epsilon_free_def
proof (intro ballI)
  fix i c
  assume ef: "\<forall>q \<in> set [0..<num_states A]. \<forall>a \<in> set (arcs_of A q). \<not> is_eps a"
    and i: "i \<in> set [0..<num_states (connect A)]" and c: "c \<in> set (arcs_of (connect A) i)"
  from i have lt: "i < length (kept A)" by simp
  then have "live A (kept A ! i)" by (rule live_nth_kept)
  then have "kept A ! i \<in> set [0..<num_states A]" by (simp add: live_def)
  moreover from c lt obtain a where "a \<in> set (arcs_of A (kept A ! i))" "c = ren (kept A) a"
    by (auto simp: arcs_of_connect)
  ultimately show "\<not> is_eps c" using ef by auto
qed

lemma epsilon_free_rmepsilon_states: "epsilon_free (rmepsilon_states A)"
  unfolding epsilon_free_def
proof (intro ballI)
  fix p c
  assume "p \<in> set [0..<num_states (rmepsilon_states A)]"
    and c: "c \<in> set (arcs_of (rmepsilon_states A) p)"
  then have "p < num_states A" by simp
  from c show "\<not> is_eps c"
    unfolding arcs_of_rmepsilon_states [OF \<open>p < num_states A\<close>]
    by (auto simp: is_eps_def)
qed

lemma epsilon_free_rmepsilon: "epsilon_free (rmepsilon A)"
  unfolding rmepsilon_def by (intro epsilon_free_connect epsilon_free_rmepsilon_states)

subsection \<open>Output strings of a cascade\<close>

lemma ostrings_compose: "ostrings (compose A B) = lang B `` ostrings A"
  unfolding ostrings_def lang_compose by force

lemma ostrings_project_Output [simp]: "ostrings (project Output A) = ostrings A"
proof -
  have "snd ` {(y, y) | y. y \<in> ostrings A} = ostrings A" by force
  then show ?thesis unfolding ostrings_def [of "project Output A"] lang_project_Output .
qed

lemma ostrings_empty_iff: "ostrings A = {} \<longleftrightarrow> lang A = {}"
  by (simp add: ostrings_def)

lemma start_compose_ostrings:
  "start (compose A B) = NO_STATE_ID \<longleftrightarrow> lang B `` ostrings A = {}"
  unfolding start_compose_iff lang_compose [symmetric] ostrings_compose [symmetric]
  by (simp add: ostrings_empty_iff)

lemma cascade_step_ostrings:
  "ostrings (rmepsilon (project Output (compose L r))) = lang r `` ostrings L"
  by (simp add: ostrings_compose)

lemma foldl_image_empty: "foldl (\<lambda>S r. lang r `` S) {} rs = {}"
  by (induction rs) simp_all

lemma cascade_ostrings:
  "cascade L rs = Inr L' \<Longrightarrow> ostrings L' = foldl (\<lambda>S r. lang r `` S) (ostrings L) rs"
proof (induction rs arbitrary: L)
  case Nil
  then show ?case by simp
next
  case (Cons r rs)
  then have "cascade (rmepsilon (project Output (compose L r))) rs = Inr L'"
    by (simp add: Let_def split: if_splits)
  from Cons.IH [OF this] show ?case by (simp add: ostrings_compose)
qed

lemma cascade_returns_iff:
  "(\<exists>L'. cascade L (r # rs) = Inr L') \<longleftrightarrow>
   foldl (\<lambda>S r. lang r `` S) (ostrings L) (r # rs) \<noteq> {}"
proof (induction rs arbitrary: L r)
  case Nil
  then show ?case by (simp add: Let_def start_compose_ostrings)
next
  case (Cons r' rs)
  let ?M = "rmepsilon (project Output (compose L r))"
  show ?case
  proof (cases "lang r `` ostrings L = {}")
    case True
    then have "cascade L (r # r' # rs) = Inl AssertionError"
      by (simp add: Let_def start_compose_ostrings)
    with True show ?thesis by (simp add: foldl_image_empty)
  next
    case False
    then have "cascade L (r # r' # rs) = cascade ?M (r' # rs)"
      by (simp add: Let_def start_compose_ostrings)
    with Cons.IH [of ?M r'] show ?thesis by (simp add: ostrings_compose)
  qed
qed

lemma lang_foldl_compose:
  "lang (foldl compose r rs) = foldl (O) (lang r) (map lang rs)"
  by (induction rs arbitrary: r) (simp_all add: lang_compose)

lemma foldl_relcomp_Image:
  "foldl (O) R (map lang rs) `` S = foldl (\<lambda>S r. lang r `` S) (R `` S) rs"
proof (induction rs arbitrary: R)
  case Nil
  then show ?case by simp
next
  case (Cons r rs)
  have "(R O lang r) `` S = lang r `` (R `` S)" by blast
  with Cons [of "R O lang r"] show ?case by simp
qed

lemma ostrings_compose_all:
  "ostrings (compose i (foldl compose r rs)) =
   foldl (\<lambda>S r. lang r `` S) (ostrings i) (r # rs)"
  by (simp add: ostrings_compose lang_foldl_compose foldl_relcomp_Image)

subsection \<open>Embedding an automaton at an offset\<close>

lemma shift_arc_fields [simp]:
  "ilabel (shift_arc k a) = ilabel a" "olabel (shift_arc k a) = olabel a"
  "weight (shift_arc k a) = weight a" "nextstate (shift_arc k a) = nextstate a + k"
  by (simp_all add: shift_arc_def)

lemma labels_shift [simp]:
  "ilabels (map (shift_arc k) as) = ilabels as" "olabels (map (shift_arc k) as) = olabels as"
  "pweight (map (shift_arc k) as) = pweight as"
  by (induction as) simp_all

lemma path_shift_fwd:
  assumes emb: "\<And>q. q < num_states A \<Longrightarrow> arcs_of C (q + k) = map (shift_arc k) (arcs_of A q)"
  shows "path A p as r \<Longrightarrow> p < num_states A \<Longrightarrow>
    path C (p + k) (map (shift_arc k) as) (r + k)"
proof (induction as arbitrary: p)
  case Nil
  then show ?case by simp
next
  case (Cons a as)
  then have a: "a \<in> set (arcs_of A p)" and rest: "path A (nextstate a) as r" by simp_all
  from a have v: "nextstate a < num_states A" by (auto dest: arcs_of_valid)
  from a have "shift_arc k a \<in> set (arcs_of C (p + k))"
    by (simp add: emb [OF Cons.prems(2)])
  with Cons.IH [OF rest v] show ?case by simp
qed

lemma path_shift_bwd:
  assumes emb: "\<And>q. q < num_states A \<Longrightarrow> arcs_of C (q + k) = map (shift_arc k) (arcs_of A q)"
  shows "path C (p + k) cs r \<Longrightarrow> p < num_states A \<Longrightarrow>
    \<exists>as r'. cs = map (shift_arc k) as \<and> r = r' + k \<and> path A p as r'"
proof (induction cs arbitrary: p)
  case Nil
  then have "[] = map (shift_arc k) [] \<and> r = p + k \<and> path A p [] p" by simp
  then show ?case by blast
next
  case (Cons c cs)
  then have "c \<in> set (arcs_of C (p + k))" and rest: "path C (nextstate c) cs r" by simp_all
  then obtain a where a: "a \<in> set (arcs_of A p)" "c = shift_arc k a"
    by (auto simp: emb [OF Cons.prems(2)])
  from a have v: "nextstate a < num_states A" by (auto dest: arcs_of_valid)
  from rest a have "path C (nextstate a + k) cs r" by simp
  from Cons.IH [OF this v] obtain as r' where
    "cs = map (shift_arc k) as" "r = r' + k" "path A (nextstate a) as r'"
    by blast
  with a have "c # cs = map (shift_arc k) (a # as) \<and> r = r' + k \<and> path A p (a # as) r'"
    by simp
  then show ?case by - (rule exI, rule exI)
qed

subsection \<open>Union\<close>

lemma num_states_shifted [simp]: "length (shifted_states k A) = num_states A"
  by (simp add: shifted_states_def)

lemma num_states_union [simp]: "num_states (union_fst A B) = Suc (num_states A + num_states B)"
  by (simp add: union_fst_def num_states_def [of "\<lparr>start_state = _, states = _\<rparr>"])

lemma start_state_union [simp]: "start_state (union_fst A B) = Some 0"
  by (simp add: union_fst_def)

lemma states_union_left:
  "q < num_states A \<Longrightarrow> states (union_fst A B) ! (q + 1) =
     \<lparr>arcs = map (shift_arc 1) (arcs_of A q), final = final_of A q\<rparr>"
  by (simp add: union_fst_def nth_append shifted_states_def)

lemma states_union_right:
  "q < num_states B \<Longrightarrow> states (union_fst A B) ! (q + (1 + num_states A)) =
     \<lparr>arcs = map (shift_arc (1 + num_states A)) (arcs_of B q), final = final_of B q\<rparr>"
  by (simp add: union_fst_def nth_append shifted_states_def)

lemma arcs_of_union_left:
  assumes "q < num_states A"
  shows "arcs_of (union_fst A B) (q + 1) = map (shift_arc 1) (arcs_of A q)"
proof -
  have "\<forall>c \<in> set (map (shift_arc 1) (arcs_of A q)).
      nextstate c < Suc (num_states A + num_states B)"
    by (auto dest!: arcs_of_valid)
  then have "filter (\<lambda>c. nextstate c < Suc (num_states A + num_states B))
      (map (shift_arc 1) (arcs_of A q)) = map (shift_arc 1) (arcs_of A q)"
    by (simp only: filter_id_conv)
  then show ?thesis
    unfolding arcs_of_def [of "union_fst A B"] num_states_union
    using assms by (simp add: states_union_left [OF assms, simplified])
qed

lemma arcs_of_union_right:
  assumes "q < num_states B"
  shows "arcs_of (union_fst A B) (q + (1 + num_states A))
    = map (shift_arc (1 + num_states A)) (arcs_of B q)"
proof -
  have "\<forall>c \<in> set (map (shift_arc (1 + num_states A)) (arcs_of B q)).
      nextstate c < Suc (num_states A + num_states B)"
    by (auto dest!: arcs_of_valid)
  then have "filter (\<lambda>c. nextstate c < Suc (num_states A + num_states B))
      (map (shift_arc (1 + num_states A)) (arcs_of B q))
      = map (shift_arc (1 + num_states A)) (arcs_of B q)"
    by (simp only: filter_id_conv)
  then show ?thesis
    unfolding arcs_of_def [of "union_fst A B"] num_states_union
    using assms states_union_right [OF assms, of A] by simp
qed

lemma final_of_union_left:
  "q < num_states A \<Longrightarrow> final_of (union_fst A B) (q + 1) = final_of A q"
  unfolding final_of_def [of "union_fst A B"] num_states_union
  using states_union_left [of q A B] by simp

lemma final_of_union_right:
  "q < num_states B \<Longrightarrow> final_of (union_fst A B) (q + (1 + num_states A)) = final_of B q"
  unfolding final_of_def [of "union_fst A B"] num_states_union
  using states_union_right [of q B A] by simp

lemma final_of_union_0 [simp]: "final_of (union_fst A B) 0 = None"
  by (simp add: final_of_def union_fst_def)

lemma eps_arc_fields [simp]:
  "ilabel (eps_arc q) = 0" "olabel (eps_arc q) = 0" "weight (eps_arc q) = 0"
  "nextstate (eps_arc q) = q"
  by (simp_all add: eps_arc_def)

lemma arcs_of_union_0:
  "set (arcs_of (union_fst A B) 0) =
    {eps_arc (s + 1) | s. start_state A = Some s \<and> s < num_states A}
    \<union> {eps_arc (t + (1 + num_states A)) | t. start_state B = Some t \<and> t < num_states B}"
proof -
  have "arcs (states (union_fst A B) ! 0) = start_arcs 1 A @ start_arcs (1 + num_states A) B"
    by (simp add: union_fst_def)
  then have "arcs_of (union_fst A B) 0 = filter (\<lambda>c. nextstate c < Suc (num_states A + num_states B))
      (start_arcs 1 A @ start_arcs (1 + num_states A) B)"
    unfolding arcs_of_def [of "union_fst A B"] num_states_union by simp
  then show ?thesis
    by (auto simp: start_arcs_def split: option.splits if_splits)
qed

lemma accepts_union:
  "accepts (union_fst A B) x y w \<longleftrightarrow> accepts A x y w \<or> accepts B x y w"
proof
  let ?U = "union_fst A B"
  assume "accepts ?U x y w"
  then obtain s cs r f where h: "start_state ?U = Some s" "path ?U s cs r"
    "final_of ?U r = Some f" "x = ilabels cs" "y = olabels cs" "w = pweight cs + f"
    by (rule acceptsE)
  from h(1) have s: "s = 0" by simp
  with h(2,3) obtain e cs' where cs: "cs = e # cs'" by (cases cs) auto
  with h(2) s have e: "e \<in> set (arcs_of ?U 0)" and rest: "path ?U (nextstate e) cs' r"
    by simp_all
  from e consider (left) s where "start_state A = Some s" "s < num_states A" "e = eps_arc (s + 1)"
    | (right) t where "start_state B = Some t" "t < num_states B"
        "e = eps_arc (t + (1 + num_states A))"
    unfolding arcs_of_union_0 by blast
  then show "accepts A x y w \<or> accepts B x y w"
  proof cases
    case (left s)
    from rest left have "path ?U (s + 1) cs' r" by simp
    from path_shift_bwd [of A ?U 1, OF arcs_of_union_left this left(2)]
    obtain as r' where as: "cs' = map (shift_arc 1) as" "r = r' + 1" "path A s as r'"
      by blast
    have "r' < num_states A" using path_valid [OF as(3) left(2)] .
    then have "final_of A r' = Some f"
      using final_of_union_left [of r' A B] h(3) as(2) by simp
    from acceptsI [OF left(1,2) as(3) this] h(4-6) cs as(1) left(3)
    show ?thesis by simp
  next
    case (right t)
    from rest right have "path ?U (t + (1 + num_states A)) cs' r" by simp
    from path_shift_bwd [of B ?U "1 + num_states A", OF arcs_of_union_right this right(2)]
    obtain bs r' where bs: "cs' = map (shift_arc (1 + num_states A)) bs"
      "r = r' + (1 + num_states A)" "path B t bs r'"
      by blast
    have "r' < num_states B" using path_valid [OF bs(3) right(2)] .
    then have "final_of B r' = Some f"
      using final_of_union_right [of r' B A] h(3) bs(2) by simp
    from acceptsI [OF right(1,2) bs(3) this] h(4-6) cs bs(1) right(3)
    show ?thesis by simp
  qed
next
  let ?U = "union_fst A B"
  assume "accepts A x y w \<or> accepts B x y w"
  then show "accepts ?U x y w"
  proof
    assume "accepts A x y w"
    then obtain s as r f where h: "start_state A = Some s" "s < num_states A" "path A s as r"
      "final_of A r = Some f" "x = ilabels as" "y = olabels as" "w = pweight as + f"
      by (rule acceptsE)
    have p: "path ?U (s + 1) (map (shift_arc 1) as) (r + 1)"
      using path_shift_fwd [of A ?U 1, OF arcs_of_union_left h(3,2)] .
    have "eps_arc (s + 1) \<in> set (arcs_of ?U 0)"
      unfolding arcs_of_union_0 using h(1,2) by blast
    with p have p0: "path ?U 0 (eps_arc (s + 1) # map (shift_arc 1) as) (r + 1)" by simp
    have "r < num_states A" using path_valid [OF h(3,2)] .
    then have "final_of ?U (r + 1) = Some f"
      using final_of_union_left [of r A B] h(4) by simp
    from acceptsI [OF start_state_union _ p0 this] h(5-7) show ?thesis by simp
  next
    assume "accepts B x y w"
    then obtain t bs r f where h: "start_state B = Some t" "t < num_states B" "path B t bs r"
      "final_of B r = Some f" "x = ilabels bs" "y = olabels bs" "w = pweight bs + f"
      by (rule acceptsE)
    let ?k = "1 + num_states A"
    have p: "path ?U (t + ?k) (map (shift_arc ?k) bs) (r + ?k)"
      using path_shift_fwd [of B ?U ?k, OF arcs_of_union_right h(3,2)] .
    have "eps_arc (t + ?k) \<in> set (arcs_of ?U 0)"
      unfolding arcs_of_union_0 using h(1,2) by blast
    with p have p0: "path ?U 0 (eps_arc (t + ?k) # map (shift_arc ?k) bs) (r + ?k)" by simp
    have "r < num_states B" using path_valid [OF h(3,2)] .
    then have "final_of ?U (r + ?k) = Some f"
      using final_of_union_right [of r B A] h(4) by simp
    from acceptsI [OF start_state_union _ p0 this] h(5-7) show ?thesis by simp
  qed
qed

lemma lang_union: "lang (union_fst A B) = lang A \<union> lang B"
  by (auto simp: lang_def accepts_union)

subsection \<open>String acceptors\<close>

lemma num_states_accep [simp]: "num_states (accep s w) = Suc (length s)"
  by (simp add: accep_def num_states_def)

lemma start_state_accep [simp]: "start_state (accep s w) = Some 0"
  by (simp add: accep_def)

lemma arcs_of_accep:
  "arcs_of (accep s w) i = (if i < length s then [char_arc s i] else [])"
  unfolding arcs_of_def num_states_accep
  by (auto simp: accep_def nth_append char_arc_def)

lemma final_of_accep:
  "final_of (accep s w) i = (if i = length s then Some w else None)"
  unfolding final_of_def num_states_accep
  by (auto simp: accep_def nth_append)

lemma string_labels_simps [simp]:
  "string_labels [] = []" "string_labels (c # s) = lab (of_char c) @ string_labels s"
  by (simp_all add: string_labels_def)

lemma path_accep:
  "path (accep s w) i as r \<Longrightarrow> r = length s \<Longrightarrow> i \<le> length s \<Longrightarrow>
   ilabels as = string_labels (drop i s) \<and> olabels as = string_labels (drop i s) \<and>
   pweight as = 0"
proof (induction as arbitrary: i)
  case Nil
  then show ?case by simp
next
  case (Cons a as)
  then have a: "a \<in> set (arcs_of (accep s w) i)"
    and rest: "path (accep s w) (nextstate a) as r" by simp_all
  from a have i: "i < length s" and ae: "a = char_arc s i"
    by (auto simp: arcs_of_accep split: if_splits)
  from rest ae have "path (accep s w) (Suc i) as r" by (simp add: char_arc_def)
  from Cons.IH [OF this Cons.prems(2)] i have
    "ilabels as = string_labels (drop (Suc i) s) \<and> olabels as = string_labels (drop (Suc i) s)
     \<and> pweight as = 0"
    by simp
  moreover have "drop i s = s ! i # drop (Suc i) s" using i by (rule Cons_nth_drop_Suc [symmetric])
  ultimately show ?case using ae by (simp add: char_arc_def)
qed

lemma path_accep_ex:
  "i \<le> length s \<Longrightarrow> \<exists>as. path (accep s w) i as (length s)"
proof (induction "length s - i" arbitrary: i)
  case 0
  then have "path (accep s w) i [] (length s)" by simp
  then show ?case by (rule exI)
next
  case (Suc n)
  then have i: "i < length s" by simp
  from Suc have "n = length s - Suc i" "Suc i \<le> length s" by simp_all
  from Suc.hyps(1) [OF this] obtain as where "path (accep s w) (Suc i) as (length s)" by blast
  with i have "path (accep s w) i (char_arc s i # as) (length s)"
    by (simp add: arcs_of_accep char_arc_def)
  then show ?case by (rule exI)
qed

lemma accepts_accep:
  "accepts (accep s w) x y w' \<longleftrightarrow>
   x = string_labels s \<and> y = string_labels s \<and> w' = w"
proof
  assume "accepts (accep s w) x y w'"
  then obtain q as r f where h: "start_state (accep s w) = Some q" "path (accep s w) q as r"
    "final_of (accep s w) r = Some f" "x = ilabels as" "y = olabels as" "w' = pweight as + f"
    by (rule acceptsE)
  from h(1) have q: "q = 0" by simp
  from h(3) have r: "r = length s" "f = w" by (auto simp: final_of_accep split: if_splits)
  from path_accep [OF h(2) r(1)] q h(4-6) r(2)
  show "x = string_labels s \<and> y = string_labels s \<and> w' = w" by simp
next
  assume a: "x = string_labels s \<and> y = string_labels s \<and> w' = w"
  obtain as where as: "path (accep s w) 0 as (length s)"
    using path_accep_ex [of 0 s w] by auto
  have f: "final_of (accep s w) (length s) = Some w" by (simp add: final_of_accep)
  from path_accep [OF as] have "ilabels as = string_labels s" "olabels as = string_labels s"
    "pweight as = 0" by simp_all
  with acceptsI [OF start_state_accep _ as f] a show "accepts (accep s w) x y w'" by simp
qed

lemma lang_accep: "lang (accep s w) = {(string_labels s, string_labels s)}"
  by (auto simp: lang_def accepts_accep)

lemma unweighted_accep: "unweighted (accep s 0)"
  by (auto simp: unweighted_def accep_def char_arc_def)

lemma acceptor_accep: "acceptor (accep s w)"
  by (auto simp: acceptor_def accep_def char_arc_def)

lemma unweighted_union:
  "unweighted A \<Longrightarrow> unweighted B \<Longrightarrow> unweighted (union_fst A B)"
  unfolding unweighted_def [of "union_fst A B"]
proof (intro ballI)
  fix s
  assume A: "unweighted A" and B: "unweighted B" and s: "s \<in> set (states (union_fst A B))"
  have arcsA: "\<And>q a. a \<in> set (arcs_of A q) \<Longrightarrow> weight a = 0"
    using A by (auto simp: unweighted_def arcs_of_def num_states_def split: if_splits)
  have arcsB: "\<And>q a. a \<in> set (arcs_of B q) \<Longrightarrow> weight a = 0"
    using B by (auto simp: unweighted_def arcs_of_def num_states_def split: if_splits)
  have finA: "\<And>q. final_of A q = None \<or> final_of A q = Some 0"
    using A by (auto simp: unweighted_def final_of_def num_states_def)
  have finB: "\<And>q. final_of B q = None \<or> final_of B q = Some 0"
    using B by (auto simp: unweighted_def final_of_def num_states_def)
  from s consider "s = \<lparr>arcs = start_arcs 1 A @ start_arcs (1 + num_states A) B, final = None\<rparr>"
    | "s \<in> set (shifted_states 1 A)" | "s \<in> set (shifted_states (1 + num_states A) B)"
    by (auto simp: union_fst_def)
  then show "(\<forall>a \<in> set (arcs s). weight a = 0) \<and> (final s = None \<or> final s = Some 0)"
  proof cases
    case 1
    then show ?thesis by (auto simp: start_arcs_def split: option.splits if_splits)
  next
    case 2
    then obtain q where "s = \<lparr>arcs = map (shift_arc 1) (arcs_of A q), final = final_of A q\<rparr>"
      by (auto simp: shifted_states_def)
    then show ?thesis using arcsA [of _ q] finA [of q] by auto
  next
    case 3
    then obtain q where "s = \<lparr>arcs = map (shift_arc (1 + num_states A)) (arcs_of B q),
        final = final_of B q\<rparr>"
      by (auto simp: shifted_states_def)
    then show ?thesis using arcsB [of _ q] finB [of q] by auto
  qed
qed

subsection \<open>Sets of states as numbers\<close>

lemma bit_mask: "bit (mask n f) q \<longleftrightarrow> q < n \<and> f q"
  by (auto simp: mask_def bit_horner_sum_bit_iff)

lemma mask_less: "mask n f < 2 ^ n"
  unfolding mask_def using horner_sum_bound [of "map f [0..<n]", where ?'a = nat] by simp

lemma lab_Nil_iff [simp]: "lab l = [] \<longleftrightarrow> l = 0"
  by (simp add: lab_def)

lemma acceptor_arcs_of:
  "acceptor A \<Longrightarrow> a \<in> set (arcs_of A q) \<Longrightarrow> ilabel a = olabel a"
  by (auto simp: acceptor_def arcs_of_def num_states_def split: if_splits)

lemma acceptor_project_Input [simp]: "acceptor (project Input B)"
  by (auto simp: acceptor_def project_def)

lemma acceptor_path_eps:
  assumes acc: "acceptor A"
  shows "path A p as q \<Longrightarrow> ilabels as = [] \<Longrightarrow> list_all is_eps as"
proof (induction as arbitrary: p)
  case Nil
  then show ?case by simp
next
  case (Cons a as)
  then have a: "a \<in> set (arcs_of A p)" "ilabel a = 0" and rest: "path A (nextstate a) as q"
    "ilabels as = []" by simp_all
  from acceptor_arcs_of [OF acc a(1)] a(2) have "is_eps a" by (simp add: is_eps_def)
  with Cons.IH [OF rest] show ?case by simp
qed

lemma eps_path_rtrancl:
  "path A p as q \<Longrightarrow> list_all is_eps as \<Longrightarrow> (p, q) \<in> (eps_rel A)\<^sup>*"
proof (induction as arbitrary: p)
  case Nil
  then show ?case by simp
next
  case (Cons a as)
  then have "(p, nextstate a) \<in> eps_rel A" by (auto simp: eps_rel_iff)
  moreover from Cons have "(nextstate a, q) \<in> (eps_rel A)\<^sup>*" by simp
  ultimately show ?case by (rule converse_rtrancl_into_rtrancl)
qed

lemma closure_member_iff:
  assumes acc: "acceptor A"
    and q: "q < num_states A"
  shows "closure_member A p q \<longleftrightarrow> (\<exists>as. path A p as q \<and> ilabels as = [])"
proof
  assume "closure_member A p q"
  then have "(p, q) \<in> (eps_rel A)\<^sup>*"
    unfolding closure_member_def eps_closure_rtrancl [OF q] .
  then obtain as where "path A p as q" "list_all is_eps as"
    by (auto dest: eps_rtrancl_path)
  with eps_labels [of as] show "\<exists>as. path A p as q \<and> ilabels as = []" by blast
next
  assume "\<exists>as. path A p as q \<and> ilabels as = []"
  then obtain as where as: "path A p as q" "ilabels as = []" by blast
  from acceptor_path_eps [OF acc as] have "list_all is_eps as" by simp
  with as(1) have "(p, q) \<in> (eps_rel A)\<^sup>*" by (rule eps_path_rtrancl)
  then show "closure_member A p q"
    unfolding closure_member_def eps_closure_rtrancl [OF q] .
qed

lemma split_last_label:
  "ilabels as = x @ [l] \<Longrightarrow> l \<noteq> 0 \<Longrightarrow>
   \<exists>as1 a as2. as = as1 @ a # as2 \<and> ilabels as1 = x \<and> ilabel a = l \<and> ilabels as2 = []"
proof (induction as rule: rev_induct)
  case Nil
  then show ?case by simp
next
  case (snoc b as)
  show ?case
  proof (cases "ilabel b = 0")
    case True
    with snoc.prems have "ilabels as = x @ [l]" by simp
    from snoc.IH [OF this snoc.prems(2)] obtain as1 a as2 where
      "as = as1 @ a # as2" "ilabels as1 = x" "ilabel a = l" "ilabels as2 = []"
      by blast
    with True have "as @ [b] = as1 @ a # (as2 @ [b]) \<and> ilabels as1 = x \<and> ilabel a = l \<and>
      ilabels (as2 @ [b]) = []"
      by simp
    then show ?thesis by blast
  next
    case False
    with snoc.prems have "ilabels as = x" "ilabel b = l" by simp_all
    then have "as @ [b] = as @ b # [] \<and> ilabels as = x \<and> ilabel b = l \<and> ilabels [] = []"
      by simp
    then show ?thesis by blast
  qed
qed

lemma start_mask_reach:
  assumes acc: "acceptor A"
    and q: "q < num_states A"
  shows "bit (start_mask A) q \<longleftrightarrow> reach A [] q"
proof (cases "start_state A")
  case None
  then show ?thesis by (simp add: start_mask_def reach_def)
next
  case (Some s)
  show ?thesis
  proof (cases "s < num_states A")
    case True
    with Some have "bit (start_mask A) q \<longleftrightarrow> closure_member A s q"
      using q by (simp add: start_mask_def bit_mask)
    also have "\<dots> \<longleftrightarrow> reach A [] q"
      using closure_member_iff [OF acc q, of s] Some True by (simp add: reach_def)
    finally show ?thesis .
  next
    case False
    with Some show ?thesis by (simp add: start_mask_def reach_def)
  qed
qed

lemma next_mask_reach:
  assumes acc: "acceptor A"
    and l: "l \<noteq> 0"
    and inv: "\<And>q. q < num_states A \<Longrightarrow> bit k q \<longleftrightarrow> reach A x q"
    and q': "q' < num_states A"
  shows "bit (next_mask A l k) q' \<longleftrightarrow> reach A (x @ [l]) q'"
proof
  assume "bit (next_mask A l k) q'"
  then have "next_member A l k q'" by (simp add: next_mask_def bit_mask)
  then obtain q a where h: "q < num_states A" "bit k q" "a \<in> set (arcs_of A q)"
    "ilabel a = l" "closure_member A (nextstate a) q'"
    by (auto simp: next_member_def)
  from inv [OF h(1)] h(2) obtain s as where s: "start_state A = Some s" "s < num_states A"
    "path A s as q" "ilabels as = x"
    by (auto simp: reach_def)
  from h(5) obtain es where es: "path A (nextstate a) es q'" "ilabels es = []"
    using closure_member_iff [OF acc q', of "nextstate a"] by blast
  have "path A s (as @ a # es) q'"
    unfolding path_append using s(3) h(3) es(1) by auto
  moreover have "ilabels (as @ a # es) = x @ [l]"
    using s(4) h(4) es(2) l by simp
  ultimately show "reach A (x @ [l]) q'"
    unfolding reach_def using s(1,2) by blast
next
  assume "reach A (x @ [l]) q'"
  then obtain s as where s: "start_state A = Some s" "s < num_states A"
    "path A s as q'" "ilabels as = x @ [l]"
    by (auto simp: reach_def)
  from split_last_label [OF s(4) l] obtain as1 a as2 where sp:
    "as = as1 @ a # as2" "ilabels as1 = x" "ilabel a = l" "ilabels as2 = []"
    by blast
  from s(3) sp(1) obtain q where p: "path A s as1 q" "a \<in> set (arcs_of A q)"
    "path A (nextstate a) as2 q'"
    by (auto simp: path_append)
  from p(2) have qv: "q < num_states A" by (auto dest: arcs_of_valid)
  have "reach A x q" unfolding reach_def using s(1,2) p(1) sp(2) by blast
  with inv [OF qv] have "bit k q" by simp
  moreover have "closure_member A (nextstate a) q'"
    using closure_member_iff [OF acc q', of "nextstate a"] p(3) sp(4) by blast
  ultimately have "next_member A l k q'"
    unfolding next_member_def using qv p(2) sp(3) by auto
  then show "bit (next_mask A l k) q'" using q' by (simp add: next_mask_def bit_mask)
qed

lemma run_reach:
  assumes acc: "acceptor A"
  shows "\<forall>l \<in> set x. l \<noteq> 0 \<Longrightarrow> q < num_states A \<Longrightarrow>
    bit (foldl (\<lambda>k l. next_mask A l k) (start_mask A) x) q \<longleftrightarrow> reach A x q"
proof (induction x arbitrary: q rule: rev_induct)
  case Nil
  then show ?case using start_mask_reach [OF acc] by simp
next
  case (snoc l x)
  then have l: "l \<noteq> 0" and x: "\<forall>l \<in> set x. l \<noteq> 0" by simp_all
  have inv: "\<And>q. q < num_states A \<Longrightarrow>
      bit (foldl (\<lambda>k l. next_mask A l k) (start_mask A) x) q \<longleftrightarrow> reach A x q"
    using snoc.IH [OF x] .
  from next_mask_reach [OF acc l inv snoc.prems(2)] show ?case by simp
qed


subsection \<open>The complement automaton\<close>

lemma num_states_complement [simp]: "num_states (complement B ls) = 2 ^ num_states B"
  by (simp add: complement_def Let_def num_states_def [of "\<lparr>start_state = _, states = _\<rparr>"])

lemma start_state_complement [simp]:
  "start_state (complement B ls) = Some (start_mask (project Input B))"
  by (simp add: complement_def Let_def)

lemma start_mask_less: "start_mask A < 2 ^ num_states A"
  by (simp add: start_mask_def mask_less split: option.splits)

lemma next_mask_less: "next_mask A l k < 2 ^ num_states A"
  by (simp add: next_mask_def mask_less)

lemma label_arc_fields [simp]:
  "ilabel (label_arc l q) = l" "olabel (label_arc l q) = l" "weight (label_arc l q) = 0"
  "nextstate (label_arc l q) = q"
  by (simp_all add: label_arc_def)

lemma states_complement:
  "k < 2 ^ num_states B \<Longrightarrow>
   states (complement B ls) ! k = complement_state (project Input B) ls k"
  by (simp add: complement_def Let_def)

lemma arcs_of_complement:
  assumes "k < 2 ^ num_states B"
  shows "set (arcs_of (complement B ls) k) =
    {label_arc l (next_mask (project Input B) l k) | l. l \<in> set ls \<and> l \<noteq> 0}"
    (is "_ = ?R")
proof -
  let ?A = "project Input B"
  have "arcs (complement_state ?A ls k) = [label_arc l (next_mask ?A l k). l \<leftarrow> ls, l \<noteq> 0]"
    by (simp add: complement_state_def)
  then have sR: "set (arcs (complement_state ?A ls k)) = ?R"
    by (simp only: set_comp1)
  have "\<forall>c \<in> ?R. nextstate c < 2 ^ num_states B"
    using next_mask_less [of ?A] by auto
  then have "filter (\<lambda>c. nextstate c < 2 ^ num_states B) (arcs (complement_state ?A ls k))
      = arcs (complement_state ?A ls k)"
    unfolding sR [symmetric] by (simp add: filter_id_conv)
  then have "arcs_of (complement B ls) k = arcs (complement_state ?A ls k)"
    unfolding arcs_of_def [of "complement B ls"] num_states_complement
    using assms by (simp add: states_complement)
  then show ?thesis using sR by simp
qed

lemma final_of_complement:
  assumes "k < 2 ^ num_states B"
  shows "final_of (complement B ls) k =
    (if \<exists>q < num_states B. bit k q \<and> final_of (project Input B) q \<noteq> None
     then None else Some 0)"
proof -
  have "final_of (complement B ls) k = final (complement_state (project Input B) ls k)"
    unfolding final_of_def [of "complement B ls"] num_states_complement
    using assms by (simp add: states_complement)
  then show ?thesis by (auto simp: complement_state_def)
qed

lemma path_complement:
  "path (complement B ls) k cs r \<Longrightarrow> k < 2 ^ num_states B \<Longrightarrow>
   r = foldl (\<lambda>k l. next_mask (project Input B) l k) k (ilabels cs) \<and>
   olabels cs = ilabels cs \<and> set (ilabels cs) \<subseteq> set ls - {0} \<and> pweight cs = 0"
proof (induction cs arbitrary: k)
  case Nil
  then show ?case by simp
next
  case (Cons c cs)
  let ?A = "project Input B"
  from Cons.prems have "c \<in> set (arcs_of (complement B ls) k)"
    and rest: "path (complement B ls) (nextstate c) cs r" by simp_all
  then obtain l where l: "l \<in> set ls" "l \<noteq> 0" "c = label_arc l (next_mask ?A l k)"
    unfolding arcs_of_complement [OF Cons.prems(2)] by blast
  have lt: "next_mask ?A l k < 2 ^ num_states B" using next_mask_less [of ?A l k] by simp
  from rest l have "path (complement B ls) (next_mask ?A l k) cs r" by simp
  from Cons.IH [OF this lt] l show ?case by simp
qed

lemma path_complement_ex:
  "set x \<subseteq> set ls - {0} \<Longrightarrow> k < 2 ^ num_states B \<Longrightarrow>
   \<exists>cs. path (complement B ls) k cs
     (foldl (\<lambda>k l. next_mask (project Input B) l k) k x) \<and> ilabels cs = x"
proof (induction x arbitrary: k)
  case Nil
  show ?case by (intro exI [of _ "[]"]) simp
next
  case (Cons l x)
  let ?A = "project Input B"
  from Cons.prems have l: "l \<in> set ls" "l \<noteq> 0" and x: "set x \<subseteq> set ls - {0}" by auto
  have lt: "next_mask ?A l k < 2 ^ num_states B" using next_mask_less [of ?A l k] by simp
  from Cons.IH [OF x lt] obtain cs where cs:
    "path (complement B ls) (next_mask ?A l k) cs
       (foldl (\<lambda>k l. next_mask ?A l k) (next_mask ?A l k) x)" "ilabels cs = x"
    by blast
  let ?c = "label_arc l (next_mask ?A l k)"
  have "?c \<in> set (arcs_of (complement B ls) k)"
    unfolding arcs_of_complement [OF Cons.prems(2)] using l by blast
  with cs l have "path (complement B ls) k (?c # cs)
       (foldl (\<lambda>k l. next_mask ?A l k) k (l # x)) \<and> ilabels (?c # cs) = l # x"
    by simp
  then show ?case by (rule exI)
qed

lemma istrings_reach:
  "x \<in> istrings A \<longleftrightarrow> (\<exists>q. reach A x q \<and> final_of A q \<noteq> None)"
proof -
  have "x \<in> istrings A \<longleftrightarrow> (\<exists>y. (x, y) \<in> lang A)"
    by (force simp: istrings_def)
  also have "\<dots> \<longleftrightarrow> (\<exists>q. reach A x q \<and> final_of A q \<noteq> None)"
    unfolding lang_iff reach_def by blast
  finally show ?thesis .
qed

lemma istrings_project_Input [simp]: "istrings (project Input B) = istrings B"
proof -
  have "fst ` {(x, x) | x. x \<in> istrings B} = istrings B" by force
  then show ?thesis unfolding istrings_def [of "project Input B"] lang_project_Input .
qed

lemma reach_valid: "reach A x q \<Longrightarrow> q < num_states A"
  unfolding reach_def using path_valid by blast

lemma accepts_complement:
  "accepts (complement B ls) x y w \<longleftrightarrow>
   x = y \<and> w = 0 \<and> set x \<subseteq> set ls - {0} \<and> x \<notin> istrings B"
proof -
  let ?A = "project Input B"
  let ?C = "complement B ls"
  let ?run = "\<lambda>x. foldl (\<lambda>k l. next_mask ?A l k) (start_mask ?A) x"
  have s0: "start_mask ?A < 2 ^ num_states B" using start_mask_less [of ?A] by simp
  have run_lt: "?run x < 2 ^ num_states B" if "set x \<subseteq> set ls - {0}" for x
  proof -
    from path_complement_ex [OF that s0] obtain cs where "path ?C (start_mask ?A) cs (?run x)"
      by blast
    from path_valid [OF this] s0 show ?thesis by simp
  qed
  have fin: "final_of ?C (?run x) = (if x \<in> istrings B then None else Some 0)"
    if x: "set x \<subseteq> set ls - {0}" for x
  proof -
    from x have nz: "\<forall>l \<in> set x. l \<noteq> 0" by auto
    have "(\<exists>q < num_states B. bit (?run x) q \<and> final_of ?A q \<noteq> None)
        \<longleftrightarrow> (\<exists>q. reach ?A x q \<and> final_of ?A q \<noteq> None)"
    proof
      assume "\<exists>q < num_states B. bit (?run x) q \<and> final_of ?A q \<noteq> None"
      then obtain q where q: "q < num_states ?A" "bit (?run x) q" "final_of ?A q \<noteq> None"
        by auto
      from run_reach [OF acceptor_project_Input nz q(1)] q(2) have "reach ?A x q" by simp
      with q(3) show "\<exists>q. reach ?A x q \<and> final_of ?A q \<noteq> None" by blast
    next
      assume "\<exists>q. reach ?A x q \<and> final_of ?A q \<noteq> None"
      then obtain q where q: "reach ?A x q" "final_of ?A q \<noteq> None" by blast
      then have qv: "q < num_states ?A" by (auto dest: reach_valid)
      from run_reach [OF acceptor_project_Input nz qv] q(1) have "bit (?run x) q" by simp
      with qv q(2) show "\<exists>q < num_states B. bit (?run x) q \<and> final_of ?A q \<noteq> None"
        by auto
    qed
    then have "(\<exists>q < num_states B. bit (?run x) q \<and> final_of ?A q \<noteq> None)
        \<longleftrightarrow> x \<in> istrings B"
      using istrings_reach [of x ?A] by simp
    then show ?thesis using final_of_complement [OF run_lt [OF x], of ls] by simp
  qed
  show ?thesis
  proof
    assume "accepts ?C x y w"
    then obtain s cs r f where h: "start_state ?C = Some s" "path ?C s cs r"
      "final_of ?C r = Some f" "x = ilabels cs" "y = olabels cs" "w = pweight cs + f"
      by (rule acceptsE)
    from h(1) have s: "s = start_mask ?A" by simp
    from path_complement [OF h(2) [unfolded s] s0] have p: "r = ?run (ilabels cs)"
      "olabels cs = ilabels cs" "set (ilabels cs) \<subseteq> set ls - {0}" "pweight cs = 0"
      by simp_all
    from h(3) fin [OF p(3)] p(1) have "ilabels cs \<notin> istrings B" "f = 0"
      by (auto split: if_splits)
    with h p show "x = y \<and> w = 0 \<and> set x \<subseteq> set ls - {0} \<and> x \<notin> istrings B" by simp
  next
    assume a: "x = y \<and> w = 0 \<and> set x \<subseteq> set ls - {0} \<and> x \<notin> istrings B"
    then have xy: "y = x" and w: "w = 0" and x: "set x \<subseteq> set ls - {0}"
      and ni: "x \<notin> istrings B" by blast+
    from path_complement_ex [OF x s0] obtain cs where cs:
      "path ?C (start_mask ?A) cs (?run x)" "ilabels cs = x"
      by blast
    from path_complement [OF cs(1) s0] cs(2) have p: "olabels cs = x" "pweight cs = 0"
      by simp_all
    from fin [OF x] ni have f: "final_of ?C (?run x) = Some 0" by simp
    have lt: "start_mask ?A < num_states ?C" using s0 by simp
    from acceptsI [OF start_state_complement lt cs(1) f] cs(2) p xy w
    show "accepts ?C x y w" by simp
  qed
qed

lemma lang_complement:
  "lang (complement B ls) = {(x, x) | x. set x \<subseteq> set ls - {0} \<and> x \<notin> istrings B}"
  unfolding lang_def accepts_complement by auto

subsection \<open>Difference\<close>

lemma olabels_alphabet:
  "path A p as r \<Longrightarrow> set (olabels as) \<subseteq> set (alphabet A) - {0}"
proof (induction as arbitrary: p)
  case Nil
  then show ?case by simp
next
  case (Cons a as)
  then have a: "a \<in> set (arcs_of A p)" and rest: "path A (nextstate a) as r" by simp_all
  from a have "p < num_states A" by (auto dest: arcs_of_valid)
  with a have "olabel a \<noteq> 0 \<Longrightarrow> olabel a \<in> set (alphabet A)"
    by (force simp: alphabet_def)
  then have "set (lab (olabel a)) \<subseteq> set (alphabet A) - {0}"
    by (auto simp: lab_def)
  with Cons.IH [OF rest] show ?case by simp
qed

lemma lang_difference:
  assumes "unweighted A" "unweighted B"
  shows "\<exists>D. difference A B = Inr D \<and> lang D = {(x, y). (x, y) \<in> lang A \<and> y \<notin> istrings B}"
proof -
  let ?D = "compose A (complement B (alphabet A))"
  have d: "difference A B = Inr ?D" using assms by (simp add: difference_def)
  have al: "set y \<subseteq> set (alphabet A) - {0}" if "(x, y) \<in> lang A" for x y
    using that unfolding lang_iff using olabels_alphabet by blast
  have "lang ?D = {(x, y). (x, y) \<in> lang A \<and> y \<notin> istrings B}"
    unfolding lang_compose lang_complement using al by fast
  with d show ?thesis by blast
qed

lemma difference_weighted:
  "\<not> unweighted A \<or> \<not> unweighted B \<Longrightarrow> difference A B = Inl UnsupportedForWeighted"
  by (auto simp: difference_def)

lemma acceptor_path_labels:
  "acceptor A \<Longrightarrow> path A p as r \<Longrightarrow> ilabels as = olabels as"
proof (induction as arbitrary: p)
  case Nil
  then show ?case by simp
next
  case (Cons a as)
  then have a: "a \<in> set (arcs_of A p)" and rest: "path A (nextstate a) as r" by simp_all
  from acceptor_arcs_of [OF Cons.prems(1) a] Cons.IH [OF Cons.prems(1) rest]
  show ?case by simp
qed

lemma acceptor_lang: "acceptor A \<Longrightarrow> (x, y) \<in> lang A \<Longrightarrow> x = y"
  unfolding lang_iff using acceptor_path_labels by blast

lemma acceptor_istrings: "acceptor A \<Longrightarrow> x \<in> istrings A \<longleftrightarrow> (x, x) \<in> lang A"
  unfolding istrings_def using acceptor_lang by force

lemma lang_difference_acceptors:
  assumes "unweighted A" "unweighted B" "acceptor A" "acceptor B"
  shows "\<exists>D. difference A B = Inr D \<and> lang D = lang A - lang B"
proof -
  from lang_difference [OF assms(1,2)] obtain D where D: "difference A B = Inr D"
    "lang D = {(x, y). (x, y) \<in> lang A \<and> y \<notin> istrings B}"
    by blast
  have "{(x, y). (x, y) \<in> lang A \<and> y \<notin> istrings B} = lang A - lang B"
    using acceptor_lang [OF assms(3)] acceptor_istrings [OF assms(4)] by auto
  with D show ?thesis by simp
qed

subsection \<open>Cross products of strings\<close>

lemma num_states_cross [simp]: "num_states (cross s t) = Suc (max (length s) (length t))"
  by (simp add: cross_def num_states_def)

lemma start_state_cross [simp]: "start_state (cross s t) = Some 0"
  by (simp add: cross_def)

lemma arcs_of_cross:
  "arcs_of (cross s t) i = (if i < max (length s) (length t)
     then [\<lparr>ilabel = (if i < length s then of_char (s ! i) else 0),
            olabel = (if i < length t then of_char (t ! i) else 0),
            weight = 0, nextstate = Suc i\<rparr>] else [])"
  unfolding arcs_of_def num_states_cross
  by (auto simp: cross_def nth_append)

lemma final_of_cross:
  "final_of (cross s t) i = (if i = max (length s) (length t) then Some 0 else None)"
  unfolding final_of_def num_states_cross
  by (auto simp: cross_def nth_append)

lemma string_labels_drop:
  "string_labels (drop i s) =
   lab (if i < length s then of_char (s ! i) else 0) @ string_labels (drop (Suc i) s)"
proof (cases "i < length s")
  case True
  then have "drop i s = s ! i # drop (Suc i) s" by (rule Cons_nth_drop_Suc [symmetric])
  with True show ?thesis by simp
next
  case False
  then show ?thesis by simp
qed

lemma path_cross:
  "path (cross s t) i as r \<Longrightarrow> r = max (length s) (length t) \<Longrightarrow>
   ilabels as = string_labels (drop i s) \<and> olabels as = string_labels (drop i t) \<and>
   pweight as = 0"
proof (induction as arbitrary: i)
  case Nil
  then show ?case by simp
next
  case (Cons a as)
  then have a: "a \<in> set (arcs_of (cross s t) i)"
    and rest: "path (cross s t) (nextstate a) as r" by simp_all
  from a have i: "i < max (length s) (length t)"
    and ae: "a = \<lparr>ilabel = (if i < length s then of_char (s ! i) else 0),
            olabel = (if i < length t then of_char (t ! i) else 0),
            weight = 0, nextstate = Suc i\<rparr>"
    by (auto simp: arcs_of_cross split: if_splits)
  from rest ae have "path (cross s t) (Suc i) as r" by simp
  from Cons.IH [OF this Cons.prems(2)] have
    "ilabels as = string_labels (drop (Suc i) s)" "olabels as = string_labels (drop (Suc i) t)"
    "pweight as = 0"
    by simp_all
  then show ?case
    unfolding string_labels_drop [of i s] string_labels_drop [of i t]
    by (simp add: ae)
qed

lemma path_cross_ex:
  "i \<le> max (length s) (length t) \<Longrightarrow>
   \<exists>as. path (cross s t) i as (max (length s) (length t))"
proof (induction "max (length s) (length t) - i" arbitrary: i)
  case 0
  then have "i = max (length s) (length t)" by linarith
  then have "path (cross s t) i [] (max (length s) (length t))" by simp
  then show ?case by (rule exI)
next
  case (Suc n)
  let ?m = "max (length s) (length t)"
  from Suc have i: "i < ?m" by simp
  from Suc have "n = ?m - Suc i" "Suc i \<le> ?m" by simp_all
  from Suc.hyps(1) [OF this] obtain as where as: "path (cross s t) (Suc i) as ?m" by blast
  let ?a = "\<lparr>ilabel = (if i < length s then of_char (s ! i) else 0),
            olabel = (if i < length t then of_char (t ! i) else 0),
            weight = 0, nextstate = Suc i\<rparr>"
  from i as have "path (cross s t) i (?a # as) ?m"
    by (simp add: arcs_of_cross)
  then show ?case by (rule exI)
qed

lemma accepts_cross:
  "accepts (cross s t) x y w \<longleftrightarrow> x = string_labels s \<and> y = string_labels t \<and> w = 0"
proof
  assume "accepts (cross s t) x y w"
  then obtain q as r f where h: "start_state (cross s t) = Some q" "path (cross s t) q as r"
    "final_of (cross s t) r = Some f" "x = ilabels as" "y = olabels as" "w = pweight as + f"
    by (rule acceptsE)
  from h(1) have q: "q = 0" by simp
  from h(3) have r: "r = max (length s) (length t)" "f = 0"
    by (auto simp: final_of_cross split: if_splits)
  from path_cross [OF h(2) r(1)] q h(4-6) r(2)
  show "x = string_labels s \<and> y = string_labels t \<and> w = 0" by simp
next
  assume a: "x = string_labels s \<and> y = string_labels t \<and> w = 0"
  obtain as where as: "path (cross s t) 0 as (max (length s) (length t))"
    using path_cross_ex [of 0 s t] by auto
  have f: "final_of (cross s t) (max (length s) (length t)) = Some 0"
    by (simp add: final_of_cross)
  from path_cross [OF as] have "ilabels as = string_labels s" "olabels as = string_labels t"
    "pweight as = 0" by simp_all
  with acceptsI [OF start_state_cross _ as f] a show "accepts (cross s t) x y w" by simp
qed

lemma lang_cross: "lang (cross s t) = {(string_labels s, string_labels t)}"
  by (auto simp: lang_def accepts_cross)

subsection \<open>Priority union\<close>

lemma unweighted_project [simp]: "unweighted (project t A) \<longleftrightarrow> unweighted A"
  by (auto simp: unweighted_def project_def)

lemma lang_priority_union:
  assumes "unweighted mu" "unweighted sigma_star" "acceptor sigma_star"
  shows "\<exists>P. priority_union mu nu sigma_star = Inr P \<and>
    lang P = lang mu \<union>
      {(x, y). (x, y) \<in> lang nu \<and> x \<in> istrings sigma_star \<and> x \<notin> istrings mu}"
proof -
  have "unweighted (project Input mu)" using assms(1) by simp
  from lang_difference [OF assms(2) this] obtain D where D:
    "difference sigma_star (project Input mu) = Inr D"
    "lang D = {(x, y). (x, y) \<in> lang sigma_star \<and> y \<notin> istrings (project Input mu)}"
    by blast
  have id: "(x, y) \<in> lang sigma_star \<longleftrightarrow> x = y \<and> x \<in> istrings sigma_star" for x y
    using acceptor_lang [OF assms(3)] acceptor_istrings [OF assms(3)] by blast
  have "lang D O lang nu =
      {(x, y). (x, y) \<in> lang nu \<and> x \<in> istrings sigma_star \<and> x \<notin> istrings mu}"
    unfolding D(2) by (auto simp: id)
  then have "lang (union_fst mu (compose D nu)) = lang mu \<union>
      {(x, y). (x, y) \<in> lang nu \<and> x \<in> istrings sigma_star \<and> x \<notin> istrings mu}"
    by (simp add: lang_union lang_compose)
  moreover have "priority_union mu nu sigma_star = Inr (union_fst mu (compose D nu))"
    by (simp add: priority_union_def D(1))
  ultimately show ?thesis by blast
qed

lemma priority_union_weighted:
  "\<not> unweighted mu \<or> \<not> unweighted sigma_star \<Longrightarrow>
   priority_union mu nu sigma_star = Inl UnsupportedForWeighted"
  by (auto simp: priority_union_def difference_def)

lemma acceptor_union: "acceptor A \<Longrightarrow> acceptor B \<Longrightarrow> acceptor (union_fst A B)"
  unfolding acceptor_def [of "union_fst A B"]
proof (intro ballI)
  fix s a
  assume A: "acceptor A" and B: "acceptor B" and s: "s \<in> set (states (union_fst A B))"
    and a: "a \<in> set (arcs s)"
  from s consider "s = \<lparr>arcs = start_arcs 1 A @ start_arcs (1 + num_states A) B, final = None\<rparr>"
    | "s \<in> set (shifted_states 1 A)" | "s \<in> set (shifted_states (1 + num_states A) B)"
    by (auto simp: union_fst_def)
  then show "ilabel a = olabel a"
  proof cases
    case 1
    with a show ?thesis by (auto simp: start_arcs_def split: option.splits if_splits)
  next
    case 2
    then obtain q where "s = \<lparr>arcs = map (shift_arc 1) (arcs_of A q), final = final_of A q\<rparr>"
      by (auto simp: shifted_states_def)
    with a show ?thesis using acceptor_arcs_of [OF A] by auto
  next
    case 3
    then obtain q where "s = \<lparr>arcs = map (shift_arc (1 + num_states A)) (arcs_of B q),
        final = final_of B q\<rparr>"
      by (auto simp: shifted_states_def)
    with a show ?thesis using acceptor_arcs_of [OF B] by auto
  qed
qed

subsection \<open>Rewriting strings of one repeated symbol\<close>

lemma rule3_fields [simp]:
  "tau_in rule3 = 98" "tau_out rule3 = 97" "lambda_bos rule3 = False" "lambda rule3 = [98]"
  "rho rule3 = [98]" "rho_eos rule3 = False" "optional rule3 = False"
  "direction rule3 = SIM" "sigma rule3 = [97, 98, 99]"
  by (simp_all add: rule3_def)

lemma rule8_fields [simp]:
  "tau_in rule8 = 98" "tau_out rule8 = 97" "lambda_bos rule8 = True" "lambda rule8 = [98]"
  "rho rule8 = [98]" "rho_eos rule8 = False" "optional rule8 = False"
  "direction rule8 = LTR" "sigma rule8 = [97, 98, 99]"
  by (simp_all add: rule8_def)

lemma rewrite_sim_rule3_after_b:
  "rewrite_sim rule3 (pre @ [98]) (replicate (Suc k) 98) = [replicate k 97 @ [98]]"
proof (induction k arbitrary: pre)
  case 0
  then show ?case by (simp add: left_ok_def right_ok_def)
next
  case (Suc k)
  have "rewrite_sim rule3 ((pre @ [98]) @ [98]) (replicate (Suc k) 98) = [replicate k 97 @ [98]]"
    by (rule Suc.IH)
  then show ?case by (simp add: left_ok_def right_ok_def)
qed

lemma rewrite_sim_rule3_bs:
  "rewrite_sim rule3 [] (replicate (n + 2) 98) = [98 # replicate n 97 @ [98]]"
proof -
  have "rewrite_sim rule3 ([] @ [98]) (replicate (Suc n) 98) = [replicate n 97 @ [98]]"
    by (rule rewrite_sim_rule3_after_b)
  then show ?thesis by (simp add: left_ok_def)
qed

lemma rewrite_ltr_rule8_copy:
  "2 \<le> length out \<Longrightarrow> rewrite_ltr rule8 out xs = [out @ xs]"
proof (induction xs arbitrary: out)
  case Nil
  then show ?case by simp
next
  case (Cons c xs)
  then have "out \<noteq> [98]" by auto
  moreover have "rewrite_ltr rule8 (out @ [c]) xs = [(out @ [c]) @ xs]"
    using Cons.prems by (intro Cons.IH) simp
  ultimately show ?case by (simp add: left_ok_def)
qed

lemma rewrite_ltr_rule8_bs:
  "rewrite_ltr rule8 [] (replicate (n + 3) 98) = [[98, 97] @ replicate (n + 1) 98]"
proof -
  have "rewrite_ltr rule8 [98, 97] (replicate (n + 1) 98) = [[98, 97] @ replicate (n + 1) 98]"
    by (rule rewrite_ltr_rule8_copy) simp
  then show ?thesis
    by (simp add: left_ok_def right_ok_def numeral_3_eq_3)
qed

lemma rewrites_string_bs:
  "rewrites_string rule3 (replicate (n + 3) 98) = [98 # replicate (n + 1) 97 @ [98]]"
  "rewrites_string rule8 (replicate (n + 3) 98) = [[98, 97] @ replicate (n + 1) 98]"
proof -
  have e: "(n + 1) + 2 = n + 3" by simp
  have "rewrite_sim rule3 [] (replicate ((n + 1) + 2) 98) = [98 # replicate (n + 1) 97 @ [98]]"
    by (rule rewrite_sim_rule3_bs)
  then have "rewrite_sim rule3 [] (replicate (n + 3) 98) = [98 # replicate (n + 1) 97 @ [98]]"
    unfolding e .
  then show "rewrites_string rule3 (replicate (n + 3) 98) = [98 # replicate (n + 1) 97 @ [98]]"
    by (simp add: rewrites_string_def)
  show "rewrites_string rule8 (replicate (n + 3) 98) = [[98, 97] @ replicate (n + 1) 98]"
    using rewrite_ltr_rule8_bs [of n] by (simp add: rewrites_string_def)
qed

subsection \<open>Optimal rewrites\<close>

lemma min_weight_Nil [simp]: "min_weight [] = None"
  by (simp add: min_weight_def zero_trop_def)









section \<open>The claims\<close>



text \<open>
  C8: \<open>exclude\<close> returns the epsilon-free output projection of the composition of the
  input with the first rule, in list order, whose composition lattice has a start state
  different from \<open>NO_STATE_ID\<close>, and it returns \<open>None\<close> exactly when the composition of the
  input with every rule of the list is empty.
\<close>

theorem exclude_first_nonempty_rule:
  "exclude i rs = (case find (\<lambda>r. start (compose i r) \<noteq> NO_STATE_ID) rs of
      None \<Rightarrow> None
    | Some r \<Rightarrow> Some (rmepsilon (project Output (compose i r))))
   \<and> (exclude i rs = None \<longleftrightarrow> (\<forall>r \<in> set rs. start (compose i r) = NO_STATE_ID))
   \<and> (exclude i rs = None \<longleftrightarrow> (\<forall>r \<in> set rs. lang (compose i r) = {}))
   \<and> epsilon_free (rmepsilon (project Output (compose i r)))
   \<and> lang (rmepsilon (project Output (compose i r)))
       = {(y, y) | y. y \<in> ostrings (compose i r)}"
proof -
  have "start (compose i r) = NO_STATE_ID \<longleftrightarrow> lang (compose i r) = {}" for r
    by (simp add: start_compose_iff lang_compose)
  then show ?thesis
    using exclude_find [of i rs] exclude_None_iff [of i rs]
    by (simp add: epsilon_free_rmepsilon lang_project_Output)
qed

theorem exclude_first_nonempty_rule_witness:
  "exclude (accep ''b'' 0) [cross ''a'' ''c'', cross ''b'' ''a'', cross ''b'' ''c'']
     = Some (rmepsilon (project Output (compose (accep ''b'' 0) (cross ''b'' ''a''))))
   \<and> exclude (accep ''b'' 0) [cross ''a'' ''c'', cross ''c'' ''a''] = None
   \<and> start (compose (accep ''b'' 0) (cross ''a'' ''c'')) = NO_STATE_ID
   \<and> start (compose (accep ''b'' 0) (cross ''c'' ''a'')) = NO_STATE_ID"
proof -
  have 1: "find (\<lambda>r. start (compose (accep ''b'' 0) r) \<noteq> NO_STATE_ID)
      [cross ''a'' ''c'', cross ''b'' ''a'', cross ''b'' ''c''] = Some (cross ''b'' ''a'')"
    by code_simp
  have 2: "\<forall>r \<in> set [cross ''a'' ''c'', cross ''c'' ''a''].
      start (compose (accep ''b'' 0) r) = NO_STATE_ID"
    by code_simp
  show ?thesis
    using exclude_first_nonempty_rule
        [of "accep ''b'' 0" "[cross ''a'' ''c'', cross ''b'' ''a'', cross ''b'' ''c'']"
          "cross ''b'' ''a''"]
      exclude_first_nonempty_rule [of "accep ''b'' 0" "[cross ''a'' ''c'', cross ''c'' ''a'']"
          "cross ''b'' ''a''"]
      1 2
    by simp
qed

text \<open>
  C9: when no assertion of \<open>cascade\<close> fails, that is when every intermediate lattice is
  non-empty, the lattice it returns for an input and a non-empty sequence of rules accepts
  exactly the output strings of the composition of the input with the single transducer
  \<open>r\<^sub>1 @ r\<^sub>2 @ \<dots> @ r\<^sub>n\<close> composed of all the rules; and \<open>cascade\<close> returns a lattice
  exactly when that composition has an output string.
\<close>

theorem cascade_same_outputs_as_composed_rules:
  "(cascade i (r # rs) = Inr L \<longrightarrow>
      ostrings L = ostrings (compose i (foldl compose r rs)))
   \<and> ((\<exists>L'. cascade i (r # rs) = Inr L') \<longleftrightarrow>
        ostrings (compose i (foldl compose r rs)) \<noteq> {})"
proof (intro conjI impI)
  assume "cascade i (r # rs) = Inr L"
  then have "ostrings L = foldl (\<lambda>S r. lang r `` S) (ostrings i) (r # rs)"
    by (rule cascade_ostrings)
  then show "ostrings L = ostrings (compose i (foldl compose r rs))"
    unfolding ostrings_compose_all .
next
  show "(\<exists>L'. cascade i (r # rs) = Inr L') \<longleftrightarrow>
        ostrings (compose i (foldl compose r rs)) \<noteq> {}"
    unfolding ostrings_compose_all by (rule cascade_returns_iff)
qed

theorem cascade_same_outputs_as_composed_rules_witness:
  "cascade (accep ''c'' 0) [cross ''c'' ''s'', cross ''s'' ''k''] = Inr (accep ''k'' 0)
   \<and> ostrings (accep ''k'' 0)
     = ostrings (compose (accep ''c'' 0) (foldl compose (cross ''c'' ''s'') [cross ''s'' ''k'']))
   \<and> ostrings (compose (accep ''c'' 0) (foldl compose (cross ''c'' ''s'') [cross ''s'' ''k'']))
     \<noteq> {}"
proof -
  have c: "cascade (accep ''c'' 0) [cross ''c'' ''s'', cross ''s'' ''k''] = Inr (accep ''k'' 0)"
    by code_simp
  show ?thesis
    using cascade_same_outputs_as_composed_rules
      [of "accep ''c'' 0" "cross ''c'' ''s''" "[cross ''s'' ''k'']" "accep ''k'' 0"] c
    by blast
qed

text \<open>
  C5: difference fails with \<open>UnsupportedForWeighted\<close> when an operand carries a weight
  other than one; for unweighted acceptors \<open>A\<close> and \<open>B\<close>, \<open>(A \<union> B) - A\<close> accepts exactly
  the strings of \<open>B\<close> that \<open>A\<close> does not accept; and with \<open>A\<close> the acceptor of
  \<open>Godspeed\<close>, as in chapter_3.py, the difference of \<open>A \<union> {You!}\<close> and \<open>A\<close>, and that
  of \<open>A \<union> (A \<union> {You!})\<close> and \<open>A\<close>, accept exactly \<open>You!\<close>.
\<close>

theorem difference_of_union_unweighted_acceptors:
  "(\<not> unweighted A \<or> \<not> unweighted B \<longrightarrow> difference A B = Inl UnsupportedForWeighted)
   \<and> (unweighted A \<and> unweighted B \<and> acceptor A \<and> acceptor B \<longrightarrow>
        (\<exists>D. difference (union_fst A B) A = Inr D \<and> lang D = lang B - lang A))
   \<and> (\<exists>D. difference (union_fst (accep ''Godspeed'' 0) (accep ''You!'' 0))
             (accep ''Godspeed'' 0) = Inr D
        \<and> lang D = {(string_labels ''You!'', string_labels ''You!'')})
   \<and> (\<exists>D. difference (union_fst (accep ''Godspeed'' 0)
               (union_fst (accep ''Godspeed'' 0) (accep ''You!'' 0)))
             (accep ''Godspeed'' 0) = Inr D
        \<and> lang D = {(string_labels ''You!'', string_labels ''You!'')})"
proof -
  have gen: "\<exists>D. difference (union_fst A B) A = Inr D \<and> lang D = lang B - lang A"
    if "unweighted A" "unweighted B" "acceptor A" "acceptor B" for A B
  proof -
    from lang_difference_acceptors [OF unweighted_union [OF that(1,2)] that(1)
        acceptor_union [OF that(3,4)] that(3)]
    obtain D where "difference (union_fst A B) A = Inr D"
      "lang D = lang (union_fst A B) - lang A" by blast
    then have "difference (union_fst A B) A = Inr D \<and> lang D = lang B - lang A"
      by (auto simp: lang_union)
    then show ?thesis by (rule exI)
  qed
  let ?G = "accep ''Godspeed'' 0" and ?Y = "accep ''You!'' 0"
  have ne: "string_labels ''You!'' \<noteq> string_labels ''Godspeed''" by code_simp
  have 1: "lang ?Y - lang ?G = {(string_labels ''You!'', string_labels ''You!'')}"
    using ne by (simp add: lang_accep)
  have 2: "lang (union_fst ?G ?Y) - lang ?G = {(string_labels ''You!'', string_labels ''You!'')}"
    using ne by (auto simp: lang_accep lang_union)
  have uG: "unweighted ?G" and uY: "unweighted ?Y" by (rule unweighted_accep)+
  have aG: "acceptor ?G" and aY: "acceptor ?Y" by (rule acceptor_accep)+
  from gen [OF uG uY aG aY] 1
  have 3: "\<exists>D. difference (union_fst ?G ?Y) ?G = Inr D
      \<and> lang D = {(string_labels ''You!'', string_labels ''You!'')}" by simp
  from gen [OF uG unweighted_union [OF uG uY] aG acceptor_union [OF aG aY]] 2
  have 4: "\<exists>D. difference (union_fst ?G (union_fst ?G ?Y)) ?G = Inr D
      \<and> lang D = {(string_labels ''You!'', string_labels ''You!'')}" by simp
  from gen [of A B] 3 4 difference_weighted [of A B] show ?thesis by blast
qed

theorem difference_of_union_unweighted_acceptors_witness:
  "unweighted (accep ''a'' 0) \<and> unweighted (accep ''b'' 0)
   \<and> acceptor (accep ''a'' 0) \<and> acceptor (accep ''b'' 0)
   \<and> (\<exists>D. difference (union_fst (accep ''a'' 0) (accep ''b'' 0)) (accep ''a'' 0) = Inr D
        \<and> lang D = lang (accep ''b'' 0) - lang (accep ''a'' 0))
   \<and> \<not> unweighted (accep ''a'' 3)
   \<and> difference (accep ''a'' 3) (accep ''b'' 0) = Inl UnsupportedForWeighted"
proof -
  have h: "unweighted (accep ''a'' 0)" "unweighted (accep ''b'' 0)"
    "acceptor (accep ''a'' 0)" "acceptor (accep ''b'' 0)" "\<not> unweighted (accep ''a'' 3)"
    by code_simp+
  show ?thesis
    using h difference_of_union_unweighted_acceptors [of "accep ''a'' 0" "accep ''b'' 0"]
      difference_of_union_unweighted_acceptors [of "accep ''a'' 3" "accep ''b'' 0"]
    by blast
qed

text \<open>
  C10: for relations (unweighted transducers) \<open>mu\<close> and \<open>nu\<close> and an unweighted acceptor
  \<open>sigma_star\<close> that accepts every input string of \<open>nu\<close>, \<open>priority_union\<close> returns a
  transducer that maps an input string in the domain of \<open>mu\<close> to exactly the outputs of
  \<open>mu\<close> for it, and any other input string to exactly the outputs of \<open>nu\<close> for it.
\<close>

theorem priority_union_prefers_mu:
  "unweighted mu \<and> unweighted sigma_star \<and> acceptor sigma_star
     \<and> istrings nu \<subseteq> istrings sigma_star \<longrightarrow>
   (\<exists>P. priority_union mu nu sigma_star = Inr P
      \<and> (\<forall>x. x \<in> istrings mu \<longrightarrow> lang P `` {x} = lang mu `` {x})
      \<and> (\<forall>x. x \<notin> istrings mu \<longrightarrow> lang P `` {x} = lang nu `` {x}))"
proof (intro impI)
  assume a: "unweighted mu \<and> unweighted sigma_star \<and> acceptor sigma_star
     \<and> istrings nu \<subseteq> istrings sigma_star"
  then have cov: "istrings nu \<subseteq> istrings sigma_star" by blast
  from a lang_priority_union [of mu sigma_star nu] obtain P where P:
    "priority_union mu nu sigma_star = Inr P"
    "lang P = lang mu \<union>
      {(x, y). (x, y) \<in> lang nu \<and> x \<in> istrings sigma_star \<and> x \<notin> istrings mu}"
    by blast
  have 1: "lang P `` {x} = lang mu `` {x}" if "x \<in> istrings mu" for x
    unfolding P(2) using that by auto
  have 2: "lang P `` {x} = lang nu `` {x}" if "x \<notin> istrings mu" for x
  proof -
    have "(x, y) \<in> lang nu \<Longrightarrow> x \<in> istrings sigma_star" for y
      using cov by (force simp: istrings_def)
    moreover have "lang mu `` {x} = {}" using that by (force simp: istrings_def)
    ultimately show ?thesis unfolding P(2) using that by auto
  qed
  from P(1) 1 2 show "\<exists>P. priority_union mu nu sigma_star = Inr P
      \<and> (\<forall>x. x \<in> istrings mu \<longrightarrow> lang P `` {x} = lang mu `` {x})
      \<and> (\<forall>x. x \<notin> istrings mu \<longrightarrow> lang P `` {x} = lang nu `` {x})"
    by blast
qed

theorem priority_union_prefers_mu_witness:
  "unweighted (cross ''a'' ''c'') \<and> unweighted sigma_star_ab \<and> acceptor sigma_star_ab
   \<and> istrings (union_fst (cross ''a'' ''d'') (cross ''b'' ''d'')) \<subseteq> istrings sigma_star_ab
   \<and> (\<exists>P. priority_union (cross ''a'' ''c'')
            (union_fst (cross ''a'' ''d'') (cross ''b'' ''d'')) sigma_star_ab = Inr P
        \<and> lang P `` {[97]} = {[99]} \<and> lang P `` {[98]} = {[100]})"
proof -
  let ?mu = "cross ''a'' ''c''" and ?nu = "union_fst (cross ''a'' ''d'') (cross ''b'' ''d'')"
  have h: "unweighted ?mu" "unweighted sigma_star_ab" "acceptor sigma_star_ab"
    by code_simp+
  have sl: "string_labels ''a'' = [97]" "string_labels ''b'' = [98]"
    "string_labels ''c'' = [99]" "string_labels ''d'' = [100]"
    by code_simp+
  have lmu: "lang ?mu = {([97], [99])}" by (simp add: lang_cross sl)
  have lnu: "lang ?nu = {([97], [100]), ([98], [100])}"
    by (auto simp: lang_union lang_cross sl)
  have "start_state sigma_star_ab = Some 0 \<and> 0 < num_states sigma_star_ab \<and>
     path sigma_star_ab 0 [label_arc l 0] 0 \<and> final_of sigma_star_ab 0 \<noteq> None \<and>
     ilabels [label_arc l 0] = [l] \<and> olabels [label_arc l 0] = [l]"
    if "l = 97 \<or> l = 98" for l
    using that by (auto simp: sigma_star_ab_def num_states_def arcs_of_def final_of_def)
  then have "([l], [l]) \<in> lang sigma_star_ab" if "l = 97 \<or> l = 98" for l
    unfolding lang_iff using that by blast
  then have "[97] \<in> istrings sigma_star_ab" "[98] \<in> istrings sigma_star_ab"
    by (force simp: istrings_def)+
  then have cov: "istrings ?nu \<subseteq> istrings sigma_star_ab"
    unfolding istrings_def [of ?nu] lnu by simp
  have i1: "[97] \<in> istrings ?mu" and i2: "[98] \<notin> istrings ?mu"
    by (simp_all add: istrings_def lmu)
  from h cov priority_union_prefers_mu [of ?mu sigma_star_ab ?nu] obtain P where P:
    "priority_union ?mu ?nu sigma_star_ab = Inr P"
    "\<forall>x. x \<in> istrings ?mu \<longrightarrow> lang P `` {x} = lang ?mu `` {x}"
    "\<forall>x. x \<notin> istrings ?mu \<longrightarrow> lang P `` {x} = lang ?nu `` {x}"
    by blast
  from P(2) i1 have "lang P `` {[97]} = {[99]}" by (auto simp: lmu)
  moreover from P(3) i2 have "lang P `` {[98]} = {[100]}" by (auto simp: lnu)
  ultimately show ?thesis using h cov P(1) by blast
qed

text \<open>
  C1, as the code has it: composed with the acceptor of \<open>bbb\<close>, the rule \<open>b \<rightarrow> a / b __ b\<close>
  compiled for simultaneous application yields the single output \<open>bab\<close>, which is its
  only optimal rewrite, and the rule \<open>b \<rightarrow> a / ^b __ b\<close> compiled for obligatory
  left-to-right application yields the same single output.  The two rules differ on the
  longer strings of \<open>b{3,7}\<close>, the input of \<^verbatim>\<open>run_basics\<close>: on \<open>b\<^sup>n\<^sup>+\<^sup>3\<close> the first gives
  \<open>b a\<^sup>n\<^sup>+\<^sup>1 b\<close> and the second \<open>b a b\<^sup>n\<^sup>+\<^sup>1\<close>, which are equal for \<open>n = 0\<close> only.
\<close>

theorem cdrewrite_modes_on_bs:
  "optimal_rewrites (accep ''bbb'' 0) rule3 = Inr [string_labels ''bab'']
   \<and> all_rewrites (accep ''bbb'' 0) rule3 = Inr [string_labels ''bab'']
   \<and> all_rewrites (accep ''bbb'' 0) rule8 = Inr [string_labels ''bab'']
   \<and> all_rewrites (accep ''bbbb'' 0) rule3 = Inr [string_labels ''baab'']
   \<and> all_rewrites (accep ''bbbb'' 0) rule8 = Inr [string_labels ''babb'']
   \<and> rewrites_string rule3 (replicate (n + 3) 98) = [98 # replicate (n + 1) 97 @ [98]]
   \<and> rewrites_string rule8 (replicate (n + 3) 98) = [[98, 97] @ replicate (n + 1) 98]
   \<and> (rewrites_string rule3 (replicate (n + 3) 98) = rewrites_string rule8 (replicate (n + 3) 98)
        \<longleftrightarrow> n = 0)"
proof -
  have 1: "optimal_rewrites (accep ''bbb'' 0) rule3 = Inr [string_labels ''bab'']"
    by code_simp
  have 2: "all_rewrites (accep ''bbb'' 0) rule3 = Inr [string_labels ''bab'']"
    by code_simp
  have 3: "all_rewrites (accep ''bbb'' 0) rule8 = Inr [string_labels ''bab'']"
    by code_simp
  have 4: "all_rewrites (accep ''bbbb'' 0) rule3 = Inr [string_labels ''baab'']"
    by code_simp
  have 5: "all_rewrites (accep ''bbbb'' 0) rule8 = Inr [string_labels ''babb'']"
    by code_simp
  have "((98::nat) # replicate (n + 1) 97 @ [98] = [98, 97] @ replicate (n + 1) 98) \<longleftrightarrow> n = 0"
    by (cases n) simp_all
  then have 6: "rewrites_string rule3 (replicate (n + 3) 98)
      = rewrites_string rule8 (replicate (n + 3) 98) \<longleftrightarrow> n = 0"
    unfolding rewrites_string_bs by simp
  from 1 2 3 4 5 6 rewrites_string_bs [of n] show ?thesis by blast
qed

theorem cdrewrite_modes_on_bs_witness:
  "rewrites_string rule3 (replicate 3 98) = [[98, 97, 98]]
   \<and> rewrites_string rule8 (replicate 3 98) = [[98, 97, 98]]
   \<and> rewrites_string rule3 (replicate 5 98) = [[98, 97, 97, 97, 98]]
   \<and> rewrites_string rule8 (replicate 5 98) = [[98, 97, 98, 98, 98]]"
  using cdrewrite_modes_on_bs [of 0] cdrewrite_modes_on_bs [of 2]
  by (simp add: numeral_eq_Suc)

text \<open>
  With \<open>aba\<close> the property fails at the input \<open>bbb\<close>: \<open>aba\<close> is not an optimal rewrite of
  \<open>bbb\<close> by the simultaneous rule, and the left-to-right rule with left context \<open>^b\<close>
  yields the same set of output strings as the simultaneous rule.
\<close>

theorem cdrewrite_bbb_counterexample:
  "\<not> (\<exists>zs. optimal_rewrites (accep ''bbb'' 0) rule3 = Inr zs \<and> string_labels ''aba'' \<in> set zs)
   \<and> \<not> (\<exists>zs zs'. all_rewrites (accep ''bbb'' 0) rule3 = Inr zs
          \<and> all_rewrites (accep ''bbb'' 0) rule8 = Inr zs' \<and> set zs \<noteq> set zs')"
proof -
  have 1: "optimal_rewrites (accep ''bbb'' 0) rule3 = Inr [string_labels ''bab'']"
    by code_simp
  have 2: "all_rewrites (accep ''bbb'' 0) rule3 = Inr [string_labels ''bab'']"
    by code_simp
  have 3: "all_rewrites (accep ''bbb'' 0) rule8 = Inr [string_labels ''bab'']"
    by code_simp
  have 4: "string_labels ''aba'' \<noteq> string_labels ''bab''" by code_simp
  from 1 2 3 4 show ?thesis by simp
qed



end
